theory Spec2Isabelle
  imports Complex_Main "HOL-Library.Sublist" "HOL-Library.AList"
begin

section \<open>Exceptions of the Python run\<close>

text \<open>
  Every exception the modelled functions can raise is a value; a function that can raise
  returns \<open>exn + 'a\<close> with \<open>Inl\<close> for the exception. A \<open>ValueError\<close> carries what
  raised it: \<open>list.index\<close> reports the value it searched for
  (\<^verbatim>\<open>'X' is not in list\<close>), \<open>max\<close> of an empty set and a tuple unpacking of the wrong
  length carry nothing. \<open>SystemExit\<close> is \<open>sys.exit(0)\<close>; \<open>EOFError\<close> is \<open>input()\<close> on an
  exhausted standard input.
\<close>

datatype value_error = NotInList string | MaxEmpty | TooManyValues

datatype exn =
    IndexError
  | TypeError
  | KeyError string
  | ValueError value_error
  | InvalidOperation
  | Overflow
  | SystemExit
  | EOFError

section \<open>The decimal module, default context\<close>

text \<open>
  \<open>decimal.Decimal\<close> is a decimal floating-point number: a sign, a coefficient and an
  exponent, or an infinity, or a quiet or signalling NaN (the sign and the diagnostic
  digits of a NaN take part in no branch and are left out). Arithmetic rounds to the
  context: the program never changes it, so precision is 28 digits, rounding is
  ROUND_HALF_EVEN, Emax = 999999, Emin = -999999, clamp is 0, and the trapped signals are
  InvalidOperation, DivisionByZero and Overflow.
\<close>

datatype decimal = Finite bool nat int | Infinity bool | NaN | sNaN

definition prec :: nat where "prec = 28"
definition Emax :: int where "Emax = 999999"
definition Emin :: int where "Emin = - 999999"
definition Etiny :: int where "Etiny = Emin - int prec + 1"
definition Etop :: int where "Etop = Emax - int prec + 1"

text \<open>The number of decimal digits of a coefficient, \<open>len(self._int)\<close>; zero has one.\<close>

fun ndigits :: "nat \<Rightarrow> nat" where
  "ndigits n = (if n < 10 then 1 else Suc (ndigits (n div 10)))"

declare ndigits.simps [simp del]

text \<open>
  \<open>Decimal._fix\<close>: round a finite result to the context. With \<open>r\<close> digits to drop, the
  kept part is \<open>c div 10 ^ r\<close> and the dropped part \<open>c mod 10 ^ r\<close>; ROUND_HALF_EVEN
  rounds up when the dropped part is above one half, or is exactly one half and the kept
  part is odd. A result above Emax raises Overflow; the untrapped signals (Rounded,
  Inexact, Subnormal, Underflow, Clamped) change nothing.
\<close>

definition dec_fix :: "bool \<Rightarrow> nat \<Rightarrow> int \<Rightarrow> exn + decimal" where
  "dec_fix s c e =
     (if c = 0 then Inr (Finite s 0 (min (max e Etiny) Emax))
      else
        let exp_min = int (ndigits c) + e - int prec in
        if exp_min > Etop then Inl Overflow
        else
          let exp_min = (if exp_min < Etiny then Etiny else exp_min) in
          if e < exp_min then
            let r = nat (exp_min - e);
                q = c div 10 ^ r;
                rest = c mod 10 ^ r;
                up = (2 * rest > 10 ^ r \<or> (2 * rest = 10 ^ r \<and> odd q));
                coeff = (if up then q + 1 else q);
                long = (up \<and> ndigits coeff > prec);
                coeff = (if long then coeff div 10 else coeff);
                exp_min = (if long then exp_min + 1 else exp_min)
            in if exp_min > Etop then Inl Overflow else Inr (Finite s coeff exp_min)
          else Inr (Finite s c e))"

text \<open>
  \<open>Decimal.__mul__\<close>: a signalling NaN raises InvalidOperation, a quiet NaN is returned,
  infinity times zero raises InvalidOperation, and two finite numbers give the exact
  product of the coefficients at the sum of the exponents, rounded by \<open>_fix\<close>.
\<close>

fun dec_mul :: "decimal \<Rightarrow> decimal \<Rightarrow> exn + decimal" where
  "dec_mul sNaN _ = Inl InvalidOperation"
| "dec_mul _ sNaN = Inl InvalidOperation"
| "dec_mul NaN _ = Inr NaN"
| "dec_mul _ NaN = Inr NaN"
| "dec_mul (Infinity s) (Infinity t) = Inr (Infinity (s \<noteq> t))"
| "dec_mul (Infinity s) (Finite t d f) =
     (if d = 0 then Inl InvalidOperation else Inr (Infinity (s \<noteq> t)))"
| "dec_mul (Finite s c e) (Infinity t) =
     (if c = 0 then Inl InvalidOperation else Inr (Infinity (s \<noteq> t)))"
| "dec_mul (Finite s c e) (Finite t d f) = dec_fix (s \<noteq> t) (c * d) (e + f)"

section \<open>TubeData\<close>

text \<open>
  An entry of \<open>count_list\<close> is a \<open>Decimal\<close> or the empty string \<^verbatim>\<open>""\<close>; an entry of
  \<open>calc_list\<close> is the string \<^verbatim>\<open>"start"\<close>, the string \<^verbatim>\<open>"ignore"\<close> or an index into
  \<open>count_list\<close>. The field \<open>n\<close> of the class is \<open>tube_name\<close> here.
\<close>

datatype cell = Num decimal | Blank

datatype calc = Start | Ignore | Parent nat

record TubeData =
  tube_name :: string
  raw_percent :: "string list"
  group_id :: string
  cell_conc :: decimal
  percent_list :: "decimal list"
  count_list :: "cell list"

text \<open>\<open>xs[i]\<close> for an index that is never negative.\<close>

definition getitem :: "'a list \<Rightarrow> nat \<Rightarrow> exn + 'a" where
  "getitem xs i = (if i < length xs then Inr (xs ! i) else Inl IndexError)"

text \<open>\<open>x * p\<close> with \<open>p\<close> a Decimal: the empty string cannot be multiplied by a Decimal.\<close>

definition cell_mul :: "cell \<Rightarrow> decimal \<Rightarrow> exn + cell" where
  "cell_mul x p =
     (case x of
        Blank \<Rightarrow> Inl TypeError
      | Num d \<Rightarrow> (case dec_mul d p of Inl err \<Rightarrow> Inl err | Inr v \<Rightarrow> Inr (Num v)))"

text \<open>
  The body of the loop of \<open>calculate_cell_counts\<close>: the value of \<open>cell_count\<close> at position
  \<open>n\<close> with entry \<open>i\<close>, given the counts appended so far. The left operand of a product
  is evaluated before the right one.
\<close>

definition cell_count :: "decimal \<Rightarrow> decimal list \<Rightarrow> cell list \<Rightarrow> nat \<Rightarrow> calc \<Rightarrow> exn + cell" where
  "cell_count conc percents counts n i =
     (case i of
        Start \<Rightarrow>
          (case getitem percents n of Inl err \<Rightarrow> Inl err | Inr p \<Rightarrow> cell_mul (Num conc) p)
      | Ignore \<Rightarrow> Inr Blank
      | Parent j \<Rightarrow>
          (case getitem counts j of
             Inl err \<Rightarrow> Inl err
           | Inr c \<Rightarrow>
               (case getitem percents n of Inl err \<Rightarrow> Inl err | Inr p \<Rightarrow> cell_mul c p)))"

fun calc_loop :: "decimal \<Rightarrow> decimal list \<Rightarrow> nat \<Rightarrow> calc list \<Rightarrow> cell list \<Rightarrow> exn + cell list" where
  "calc_loop conc percents n [] counts = Inr counts"
| "calc_loop conc percents n (i # rest) counts =
     (case cell_count conc percents counts n i of
        Inl err \<Rightarrow> Inl err
      | Inr c \<Rightarrow> calc_loop conc percents (Suc n) rest (counts @ [c]))"

definition calculate_cell_counts :: "TubeData \<Rightarrow> calc list \<Rightarrow> exn + TubeData" where
  "calculate_cell_counts self calc_list =
     (case calc_loop (cell_conc self) (percent_list self) 0 calc_list (count_list self) of
        Inl err \<Rightarrow> Inl err
      | Inr counts \<Rightarrow> Inr (self\<lparr>count_list := counts\<rparr>))"

text \<open>
  The parent chain of position \<open>i\<close> reaches a \<open>start\<close> entry: the entry at \<open>i\<close> is
  \<open>start\<close>, or it is an earlier index whose chain does. An \<open>ignore\<close> entry ends a chain
  without reaching one.
\<close>

inductive reaches_start :: "calc list \<Rightarrow> nat \<Rightarrow> bool" where
  at_start: "i < length cl \<Longrightarrow> cl ! i = Start \<Longrightarrow> reaches_start cl i"
| via_parent: "i < length cl \<Longrightarrow> cl ! i = Parent j \<Longrightarrow> j < i \<Longrightarrow> reaches_start cl j \<Longrightarrow> reaches_start cl i"

code_pred reaches_start .

section \<open>Strings\<close>

text \<open>\<open>s.split(sep)\<close> for a separator that is not empty: the pieces between the
  occurrences of \<open>sep\<close>, found from the left and not overlapping.\<close>

function str_split :: "string \<Rightarrow> string \<Rightarrow> string list" where
  "str_split sep [] = [[]]"
| "str_split sep (c # cs) =
     (if sep \<noteq> [] \<and> prefix sep (c # cs)
      then [] # str_split sep (drop (length sep) (c # cs))
      else (case str_split sep cs of [] \<Rightarrow> [[c]] | w # ws \<Rightarrow> (c # w) # ws))"
  by pat_completeness auto
termination
  by (relation "measure (\<lambda>(sep, s). length s)") auto

text \<open>\<open>sep.join(xs)\<close>.\<close>

fun join :: "string \<Rightarrow> string list \<Rightarrow> string" where
  "join sep [] = []"
| "join sep [x] = x"
| "join sep (x # y # ys) = x @ sep @ join sep (y # ys)"

text \<open>\<open>s.rsplit(d, 1)[0]\<close> for a one-character separator: what stands before the last
  \<open>d\<close>, or all of \<open>s\<close> when it has none.\<close>

definition rsplit1 :: "char \<Rightarrow> string \<Rightarrow> string" where
  "rsplit1 d s = (if d \<in> set s then rev (tl (dropWhile (\<lambda>c. c \<noteq> d) (rev s))) else s)"

text \<open>\<open>sep in s\<close>.\<close>

fun contains :: "string \<Rightarrow> string \<Rightarrow> bool" where
  "contains sep [] = (sep = [])"
| "contains sep (c # cs) = (prefix sep (c # cs) \<or> contains sep cs)"

text \<open>\<open>s.strip(chars)\<close>.\<close>

definition strip :: "string \<Rightarrow> string \<Rightarrow> string" where
  "strip chars s =
     rev (dropWhile (\<lambda>c. c \<in> set chars) (rev (dropWhile (\<lambda>c. c \<in> set chars) s)))"

text \<open>\<open>xs.index(x)\<close>.\<close>

fun list_index :: "string list \<Rightarrow> string \<Rightarrow> exn + nat" where
  "list_index [] x = Inl (ValueError (NotInList x))"
| "list_index (y # ys) x =
     (if y = x then Inr 0
      else (case list_index ys x of Inl err \<Rightarrow> Inl err | Inr k \<Rightarrow> Inr (Suc k)))"

section \<open>Standard input\<close>

text \<open>
  Standard input is the list of the lines still to be read; \<open>input()\<close> takes the first and
  raises EOFError when none is left. A function that prompts returns the lines it has not
  read. What is printed is not modelled.
\<close>

definition is_space :: "char \<Rightarrow> bool" where
  "is_space c = (c \<in> set [CHR '' '', CHR 0x09, CHR 0x0A, CHR 0x0B, CHR 0x0C, CHR 0x0D,
                           CHR 0x1C, CHR 0x1D, CHR 0x1E, CHR 0x1F])"

definition is_digit :: "char \<Rightarrow> bool" where
  "is_digit c = (c \<in> set ''0123456789'')"

definition digit_val :: "char \<Rightarrow> nat" where
  "digit_val c = of_char c - 48"

definition nat_of_digits :: "string \<Rightarrow> nat" where
  "nat_of_digits ds = foldl (\<lambda>a c. 10 * a + digit_val c) 0 ds"

definition strip_space :: "string \<Rightarrow> string" where
  "strip_space s = rev (dropWhile is_space (rev (dropWhile is_space s)))"

text \<open>
  \<open>int(s)\<close> on an ASCII string: blanks around, an optional sign, and groups of digits with
  single underscores between them; \<open>None\<close> is ValueError.
\<close>

definition int_body :: "string \<Rightarrow> nat option" where
  "int_body s =
     (let groups = str_split ''_'' s in
      if list_all (\<lambda>g. g \<noteq> [] \<and> list_all is_digit g) groups
      then Some (nat_of_digits (concat groups)) else None)"

definition py_int :: "string \<Rightarrow> int option" where
  "py_int s =
     (case strip_space s of
        [] \<Rightarrow> None
      | c # cs \<Rightarrow>
          if c = CHR ''-'' then map_option (\<lambda>k. - int k) (int_body cs)
          else if c = CHR ''+'' then map_option int (int_body cs)
          else map_option int (int_body (c # cs)))"

definition lower_char :: "char \<Rightarrow> char" where
  "lower_char c =
     (case map_of (zip ''ABCDEFGHIJKLMNOPQRSTUVWXYZ'' ''abcdefghijklmnopqrstuvwxyz'') c of
        None \<Rightarrow> c
      | Some l \<Rightarrow> l)"

definition lower :: "string \<Rightarrow> string" where
  "lower s = map lower_char s"

definition yes_no :: "string list \<Rightarrow> exn + string list" where
  "yes_no stdin =
     (case stdin of
        [] \<Rightarrow> Inl EOFError
      | answer # rest \<Rightarrow>
          if lower answer \<in> set [''n'', ''no'', ''quit'', ''q''] then Inl SystemExit
          else Inr rest)"

lemma yes_no_shorter: "yes_no stdin = Inr rest \<Longrightarrow> length rest < length stdin"
  by (auto simp: yes_no_def split: list.splits if_splits)

text \<open>The \<open>while True\<close> loop of \<open>ask_starting_gate\<close>: read lines until one is an integer
  in \<open>1 .. n\<close>, asking \<open>yes_no\<close> after each line that is not.\<close>

function ask_level :: "nat \<Rightarrow> string list \<Rightarrow> exn + (nat \<times> string list)" where
  "ask_level n [] = Inl EOFError"
| "ask_level n (answer # stdin) =
     (case py_int answer of
        Some int_answer \<Rightarrow>
          if 0 < int_answer \<and> int_answer \<le> int n then Inr (nat int_answer, stdin)
          else (case yes_no stdin of Inl err \<Rightarrow> Inl err | Inr rest \<Rightarrow> ask_level n rest)
      | None \<Rightarrow> (case yes_no stdin of Inl err \<Rightarrow> Inl err | Inr rest \<Rightarrow> ask_level n rest))"
  by pat_completeness auto
termination
  by (relation "measure (\<lambda>(n, stdin). length stdin)") (auto dest: yes_no_shorter)

definition ask_starting_gate :: "string \<Rightarrow> string list \<Rightarrow> exn + (string \<times> string list)" where
  "ask_starting_gate min_gate stdin =
     (let min_gate_list = str_split ''/'' min_gate in
      case ask_level (length min_gate_list) stdin of
        Inl err \<Rightarrow> Inl err
      | Inr (int_answer, rest) \<Rightarrow> Inr (join ''/'' (take int_answer (str_split ''/'' min_gate)), rest))"

section \<open>check_starting_gate\<close>

text \<open>
  The dict \<open>gates\<close> is the list of its items in insertion order, with no key twice. The
  first loop returns \<open>only_one_start_gate\<close>, \<open>lengths_checked\<close> and \<open>redundant_lengths\<close> as
  they are when the loop ends or breaks.
\<close>

fun scan_lengths :: "nat list \<Rightarrow> nat set \<Rightarrow> nat set \<Rightarrow> bool \<times> nat set \<times> nat set" where
  "scan_lengths [] lengths_checked redundant_lengths = (True, lengths_checked, redundant_lengths)"
| "scan_lengths (l # ls) lengths_checked redundant_lengths =
     (if l \<in> lengths_checked \<and> l = 1 then (False, lengths_checked, redundant_lengths)
      else if l \<in> lengths_checked
        then scan_lengths ls (insert l lengths_checked) (insert l redundant_lengths)
      else scan_lengths ls (insert l lengths_checked) redundant_lengths)"

text \<open>The loop that leaves in \<open>min_gate\<close> the last gate whose number is \<open>longest_shared\<close>.\<close>

fun find_min_gate :: "(string \<times> nat) list \<Rightarrow> nat \<Rightarrow> string \<Rightarrow> string" where
  "find_min_gate [] longest_shared min_gate = min_gate"
| "find_min_gate ((gate, number) # rest) longest_shared min_gate =
     find_min_gate rest longest_shared (if number = longest_shared then gate else min_gate)"

definition check_starting_gate ::
  "(string \<times> nat) list \<Rightarrow> string list \<Rightarrow> exn + ((string list \<times> string list) \<times> string list)" where
  "check_starting_gate gates stdin =
     (case scan_lengths (map snd gates) {} {} of
        (only_one_start_gate, lengths_checked, redundant_lengths) \<Rightarrow>
          if only_one_start_gate then
            if lengths_checked - redundant_lengths = {} then Inl (ValueError MaxEmpty)
            else
              let longest_shared = Max (lengths_checked - redundant_lengths);
                  min_gate = find_min_gate gates longest_shared ''''
              in case ask_starting_gate min_gate stdin of
                   Inl err \<Rightarrow> Inl err
                 | Inr (start_gate_str, rest) \<Rightarrow>
                     (case map_of gates start_gate_str of
                        None \<Rightarrow> Inl (KeyError start_gate_str)
                      | Some num_gate_of_min \<Rightarrow>
                          Inr (([start_gate_str],
                                map fst (filter (\<lambda>(gate, number). number < num_gate_of_min) gates)),
                               rest))
          else Inr ((map fst (filter (\<lambda>(x, y). y = 1) gates), []), stdin))"

section \<open>find_parent_gate\<close>

definition parent_entry :: "string list \<Rightarrow> string list \<Rightarrow> string list \<Rightarrow> string \<Rightarrow> exn + calc" where
  "parent_entry start_gate_list g_list i_list population =
     (if population \<in> set start_gate_list then Inr Start
      else if population \<in> set i_list then Inr Ignore
      else (case list_index g_list (rsplit1 (CHR ''/'') population) of
              Inl err \<Rightarrow> Inl err
            | Inr j \<Rightarrow> Inr (Parent j)))"

fun find_parent_loop :: "string list \<Rightarrow> string list \<Rightarrow> string list \<Rightarrow> string list \<Rightarrow> exn + calc list" where
  "find_parent_loop start_gate_list g_list i_list [] = Inr []"
| "find_parent_loop start_gate_list g_list i_list (population # rest) =
     (case parent_entry start_gate_list g_list i_list population of
        Inl err \<Rightarrow> Inl err
      | Inr c \<Rightarrow>
          (case find_parent_loop start_gate_list g_list i_list rest of
             Inl err \<Rightarrow> Inl err
           | Inr cs \<Rightarrow> Inr (c # cs)))"

definition find_parent_gate :: "string list \<Rightarrow> string list \<Rightarrow> string list \<Rightarrow> exn + calc list" where
  "find_parent_gate start_gate_list g_list i_list =
     find_parent_loop start_gate_list g_list i_list g_list"

section \<open>process_csv: the header row\<close>

text \<open>
  The first loop of \<open>process_csv\<close>, over the cells \<open>data[0][1:-1]\<close>: a cell without
  \<^verbatim>\<open>" | "\<close> ends the run with \<open>sys.exit(0)\<close>; the cell is split at \<^verbatim>\<open>" | "\<close> into
  exactly two parts (the unpacking raises ValueError on more); the first part is appended
  to \<open>gate_order\<close> and stored in \<open>gates_dict\<close> with its number of \<^verbatim>\<open>"/"\<close>-separated
  segments. Storing under a key the dict already has keeps the key's place.
\<close>

fun read_gates ::
  "string list \<Rightarrow> string list \<Rightarrow> (string \<times> nat) list \<Rightarrow> exn + (string list \<times> (string \<times> nat) list)" where
  "read_gates [] gate_order gates_dict = Inr (gate_order, gates_dict)"
| "read_gates (gate # rest) gate_order gates_dict =
     (if \<not> contains '' | '' gate then Inl SystemExit
      else (case str_split '' | '' gate of
              [cleaned_gate, test] \<Rightarrow>
                read_gates rest (gate_order @ [cleaned_gate])
                  (AList.update cleaned_gate (length (str_split ''/'' cleaned_gate)) gates_dict)
            | _ \<Rightarrow> Inl (ValueError TooManyValues)))"

section \<open>Decimal from a string, and division by 100\<close>

text \<open>
  \<open>Decimal(value)\<close> for an ASCII string, as the \<open>decimal\<close> module reads it: blanks around
  are stripped and every underscore removed; then an optional sign and either digits with
  an optional point and an optional exponent (at least one digit before the exponent), or
  \<^verbatim>\<open>Inf\<close>, \<^verbatim>\<open>Infinity\<close>, \<^verbatim>\<open>NaN\<close> or \<^verbatim>\<open>sNaN\<close> with diagnostic digits, in any case of the
  letters. The construction is exact: no rounding. \<open>None\<close> is InvalidOperation.
\<close>

definition parse_sign :: "string \<Rightarrow> bool \<times> string" where
  "parse_sign s =
     (case s of
        [] \<Rightarrow> (False, [])
      | c # cs \<Rightarrow>
          if c = CHR ''-'' then (True, cs) else if c = CHR ''+'' then (False, cs) else (False, s))"

definition parse_exp :: "string \<Rightarrow> int option" where
  "parse_exp s =
     (case parse_sign s of
        (neg, ds) \<Rightarrow>
          if ds \<noteq> [] \<and> list_all is_digit ds
          then Some (if neg then - int (nat_of_digits ds) else int (nat_of_digits ds))
          else None)"

definition parse_number :: "string \<Rightarrow> (nat \<times> int) option" where
  "parse_number s =
     (let intpart = takeWhile is_digit s;
          after_int = dropWhile is_digit s;
          has_point = (after_int \<noteq> [] \<and> hd after_int = CHR ''.'');
          fracpart = (if has_point then takeWhile is_digit (tl after_int) else []);
          after_frac = (if has_point then dropWhile is_digit (tl after_int) else after_int)
      in if intpart = [] \<and> fracpart = [] then None
         else (case after_frac of
                 [] \<Rightarrow> Some (nat_of_digits (intpart @ fracpart), - int (length fracpart))
               | c # cs \<Rightarrow>
                   if c = CHR ''e'' \<or> c = CHR ''E''
                   then map_option
                          (\<lambda>expo. (nat_of_digits (intpart @ fracpart), expo - int (length fracpart)))
                          (parse_exp cs)
                   else None))"

definition Decimal :: "string \<Rightarrow> decimal option" where
  "Decimal value =
     (case parse_sign (filter (\<lambda>c. c \<noteq> CHR ''_'') (strip_space value)) of
        (neg, body) \<Rightarrow>
          if lower body = ''inf'' \<or> lower body = ''infinity'' then Some (Infinity neg)
          else if prefix ''nan'' (lower body) \<and> list_all is_digit (drop 3 body) then Some NaN
          else if prefix ''snan'' (lower body) \<and> list_all is_digit (drop 4 body) then Some sNaN
          else map_option (\<lambda>(c, e). Finite neg c e) (parse_number body))"

text \<open>
  The loop of \<open>Decimal.__truediv__\<close> that brings an exact quotient as close to the ideal
  exponent as its trailing zeros allow.
\<close>

function strip_zeros :: "nat \<Rightarrow> int \<Rightarrow> int \<Rightarrow> nat \<times> int" where
  "strip_zeros coeff expo ideal_exp =
     (if expo < ideal_exp \<and> coeff mod 10 = 0 then strip_zeros (coeff div 10) (expo + 1) ideal_exp
      else (coeff, expo))"
  by pat_completeness auto
termination
  by (relation "measure (\<lambda>(coeff, expo, ideal_exp). nat (ideal_exp - expo))") auto

declare strip_zeros.simps [simp del]

text \<open>
  \<open>x / 100\<close>, that is \<open>Decimal.__truediv__\<close> with the divisor \<open>Decimal(100)\<close>: the quotient
  of the coefficients is computed to \<open>prec + 1\<close> digits, marked when it is not exact, and
  rounded by \<open>_fix\<close>.
\<close>

definition div_100 :: "decimal \<Rightarrow> exn + decimal" where
  "div_100 x =
     (case x of
        sNaN \<Rightarrow> Inl InvalidOperation
      | NaN \<Rightarrow> Inr NaN
      | Infinity s \<Rightarrow> Inr (Infinity s)
      | Finite s c e \<Rightarrow>
          if c = 0 then dec_fix s 0 e
          else
            let shift = 3 - int (ndigits c) + int prec + 1;
                expo = e - shift;
                num = (if shift \<ge> 0 then c * 10 ^ nat shift else c);
                den = (if shift \<ge> 0 then 100 else 100 * 10 ^ nat (- shift));
                coeff = num div den;
                remainder = num mod den
            in if remainder \<noteq> 0
               then dec_fix s (if coeff mod 5 = 0 then coeff + 1 else coeff) expo
               else (case strip_zeros coeff expo e of (coeff, expo) \<Rightarrow> dec_fix s coeff expo))"

text \<open>The number a finite Decimal stands for.\<close>

definition dec_value :: "bool \<Rightarrow> nat \<Rightarrow> int \<Rightarrow> rat" where
  "dec_value s c e = (if s then - 1 else 1) * of_nat c * 10 powi e"

section \<open>TubeData.__init__\<close>

fun convert_to_decimal :: "string list \<Rightarrow> decimal list \<Rightarrow> exn + decimal list" where
  "convert_to_decimal [] percents = Inr percents"
| "convert_to_decimal (percent # rest) percents =
     (case Decimal percent of
        None \<Rightarrow> Inl SystemExit
      | Some d \<Rightarrow>
          (case div_100 d of
             Inl err \<Rightarrow> if err = InvalidOperation then Inl SystemExit else Inl err
           | Inr number \<Rightarrow> convert_to_decimal rest (percents @ [number])))"

function ask_cell_conc :: "string list \<Rightarrow> exn + (decimal \<times> string list)" where
  "ask_cell_conc [] = Inl EOFError"
| "ask_cell_conc (answer # stdin) =
     (case Decimal answer of
        Some d \<Rightarrow> Inr (d, stdin)
      | None \<Rightarrow> (case yes_no stdin of Inl err \<Rightarrow> Inl err | Inr rest \<Rightarrow> ask_cell_conc rest))"
  by pat_completeness auto
termination
  by (relation "measure length") (auto dest: yes_no_shorter)

definition TubeData_init :: "string \<Rightarrow> string list \<Rightarrow> string list \<Rightarrow> exn + (TubeData \<times> string list)" where
  "TubeData_init name raw_percent_data_list stdin =
     (case convert_to_decimal raw_percent_data_list [] of
        Inl err \<Rightarrow> Inl err
      | Inr percents \<Rightarrow>
          (case ask_cell_conc stdin of
             Inl err \<Rightarrow> Inl err
           | Inr (conc, rest) \<Rightarrow>
               Inr (\<lparr>tube_name = name, raw_percent = raw_percent_data_list, group_id = '''',
                      cell_conc = conc, percent_list = percents, count_list = []\<rparr>, rest)))"

section \<open>process_csv: the rows\<close>

fun read_tubes :: "string list list \<Rightarrow> TubeData list \<Rightarrow> string list \<Rightarrow> exn + (TubeData list \<times> string list)" where
  "read_tubes [] tube_list stdin = Inr (tube_list, stdin)"
| "read_tubes (line # rest) tube_list stdin =
     (case line of
        [] \<Rightarrow> Inl IndexError
      | first # cells \<Rightarrow>
          let name = strip ''.fcs'' first in
          if name \<notin> set [''Mean'', ''SD''] then
            (case TubeData_init name (butlast cells) stdin of
               Inl err \<Rightarrow> Inl err
             | Inr (x, stdin') \<Rightarrow> read_tubes rest (tube_list @ [x]) stdin')
          else read_tubes rest tube_list stdin)"

definition process_csv ::
  "string list list \<Rightarrow> string list \<Rightarrow>
     exn + ((string list \<times> (string \<times> nat) list \<times> TubeData list) \<times> string list)" where
  "process_csv data stdin =
     (case data of
        [] \<Rightarrow> Inl IndexError
      | header # rows \<Rightarrow>
          (case read_gates (butlast (tl header)) [] [] of
             Inl err \<Rightarrow> Inl err
           | Inr (gate_order, gates_dict) \<Rightarrow>
               (case read_tubes rows [] stdin of
                  Inl err \<Rightarrow> Inl err
                | Inr (tube_list, rest) \<Rightarrow> Inr ((gate_order, gates_dict, tube_list), rest))))"

section \<open>main\<close>

text \<open>
  \<open>main\<close> from the rows of the file to the counts of every tube: \<open>process_csv\<close>,
  \<open>check_starting_gate\<close>, \<open>find_parent_gate\<close>, then \<open>calculate_cell_counts\<close> on each tube.
  The output file is written after that, so an exception here leaves no output.
\<close>

fun calculate_all :: "TubeData list \<Rightarrow> calc list \<Rightarrow> exn + TubeData list" where
  "calculate_all [] calc_list = Inr []"
| "calculate_all (tube # rest) calc_list =
     (case calculate_cell_counts tube calc_list of
        Inl err \<Rightarrow> Inl err
      | Inr t \<Rightarrow>
          (case calculate_all rest calc_list of Inl err \<Rightarrow> Inl err | Inr ts \<Rightarrow> Inr (t # ts)))"

definition main_core ::
  "string list list \<Rightarrow> string list \<Rightarrow> exn + ((string list \<times> TubeData list) \<times> string list)" where
  "main_core content stdin =
     (case process_csv content stdin of
        Inl err \<Rightarrow> Inl err
      | Inr ((gate_list, start_gates_dict, tube_list), stdin1) \<Rightarrow>
          (case check_starting_gate start_gates_dict stdin1 of
             Inl err \<Rightarrow> Inl err
           | Inr ((start_gate_list, ignore_list), stdin2) \<Rightarrow>
               (case find_parent_gate start_gate_list gate_list ignore_list of
                  Inl err \<Rightarrow> Inl err
                | Inr calc_list \<Rightarrow>
                    (case calculate_all tube_list calc_list of
                       Inl err \<Rightarrow> Inl err
                     | Inr tubes \<Rightarrow> Inr ((gate_list, tubes), stdin2)))))"

section \<open>Count propagation\<close>

lemma calc_loop_Inr:
  "calc_loop conc ps n cl acc = Inr out \<longleftrightarrow>
     (\<exists>cs. out = acc @ cs \<and> length cs = length cl \<and>
        (\<forall>i < length cl. cell_count conc ps (acc @ take i cs) (n + i) (cl ! i) = Inr (cs ! i)))"
proof (induction cl arbitrary: n acc)
  case Nil
  then show ?case by auto
next
  case (Cons c cl)
  show ?case
  proof
    assume run: "calc_loop conc ps n (c # cl) acc = Inr out"
    then obtain v where v: "cell_count conc ps acc n c = Inr v"
      and rest: "calc_loop conc ps (Suc n) cl (acc @ [v]) = Inr out"
      by (auto split: sum.splits)
    from rest Cons.IH obtain cs where cs: "out = (acc @ [v]) @ cs" "length cs = length cl"
      "\<forall>i < length cl. cell_count conc ps ((acc @ [v]) @ take i cs) (Suc n + i) (cl ! i) = Inr (cs ! i)"
      by blast
    have "\<forall>i < length (c # cl).
            cell_count conc ps (acc @ take i (v # cs)) (n + i) ((c # cl) ! i) = Inr ((v # cs) ! i)"
    proof (intro allI impI)
      fix i assume "i < length (c # cl)"
      then show "cell_count conc ps (acc @ take i (v # cs)) (n + i) ((c # cl) ! i) = Inr ((v # cs) ! i)"
        using v cs(3) by (cases i) auto
    qed
    with cs(1,2) show "\<exists>cs. out = acc @ cs \<and> length cs = length (c # cl) \<and>
        (\<forall>i < length (c # cl). cell_count conc ps (acc @ take i cs) (n + i) ((c # cl) ! i) = Inr (cs ! i))"
      by (intro exI [of _ "v # cs"]) simp
  next
    assume "\<exists>cs. out = acc @ cs \<and> length cs = length (c # cl) \<and>
        (\<forall>i < length (c # cl). cell_count conc ps (acc @ take i cs) (n + i) ((c # cl) ! i) = Inr (cs ! i))"
    then obtain cs where cs: "out = acc @ cs" "length cs = length (c # cl)"
      and all: "\<And>i. i < length (c # cl) \<Longrightarrow>
         cell_count conc ps (acc @ take i cs) (n + i) ((c # cl) ! i) = Inr (cs ! i)"
      by blast
    from cs(2) obtain v cs' where vcs: "cs = v # cs'" by (cases cs) auto
    from all [of 0] vcs have v: "cell_count conc ps acc n c = Inr v" by simp
    have "\<forall>i < length cl.
            cell_count conc ps ((acc @ [v]) @ take i cs') (Suc n + i) (cl ! i) = Inr (cs' ! i)"
    proof (intro allI impI)
      fix i assume "i < length cl"
      then show "cell_count conc ps ((acc @ [v]) @ take i cs') (Suc n + i) (cl ! i) = Inr (cs' ! i)"
        using all [of "Suc i"] vcs by simp
    qed
    with cs vcs have "calc_loop conc ps (Suc n) cl (acc @ [v]) = Inr out"
      using Cons.IH [of "Suc n" "acc @ [v]"] by auto
    with v show "calc_loop conc ps n (c # cl) acc = Inr out" by simp
  qed
qed

lemma calc_loop_append:
  "calc_loop conc ps n (xs @ ys) acc =
     (case calc_loop conc ps n xs acc of
        Inl err \<Rightarrow> Inl err
      | Inr out \<Rightarrow> calc_loop conc ps (n + length xs) ys out)"
  by (induction xs arbitrary: n acc) (auto split: sum.splits)

lemma cell_count_extend:
  "cell_count conc ps counts n c = Inr v \<Longrightarrow> cell_count conc ps (counts @ ext) n c = Inr v"
  by (cases c) (auto simp: cell_count_def getitem_def nth_append split: if_splits sum.splits)

lemma calc_loop_again:
  assumes "calc_loop conc ps 0 cl [] = Inr cs"
  shows "calc_loop conc ps 0 cl cs = Inr (cs @ cs)"
proof -
  from assms have len: "length cs = length cl"
    and step: "\<And>i. i < length cl \<Longrightarrow> cell_count conc ps (take i cs) i (cl ! i) = Inr (cs ! i)"
    by (auto simp: calc_loop_Inr)
  have "cell_count conc ps (cs @ take i cs) (0 + i) (cl ! i) = Inr (cs ! i)" if "i < length cl" for i
  proof -
    have "cell_count conc ps (take i cs @ (drop i cs @ take i cs)) i (cl ! i) = Inr (cs ! i)"
      using step [OF that] by (rule cell_count_extend)
    moreover have "take i cs @ (drop i cs @ take i cs) = cs @ take i cs"
      by (simp flip: append_assoc)
    ultimately show ?thesis by simp
  qed
  with len show ?thesis unfolding calc_loop_Inr by blast
qed

lemma calc_loop_Ignore_Blank:
  assumes "calc_loop conc ps 0 cl [] = Inr cs" "j < length cl" "cl ! j = Ignore"
  shows "cs ! j = Blank"
  using assms by (auto simp: calc_loop_Inr cell_count_def)

lemma calc_loop_Num_reaches:
  assumes "calc_loop conc ps 0 cl [] = Inr cs"
  shows "k < length cl \<Longrightarrow> cs ! k = Num d \<Longrightarrow> reaches_start cl k"
proof (induction k arbitrary: d rule: less_induct)
  case (less k)
  from assms less.prems(1) have len: "length cs = length cl"
    and step: "cell_count conc ps (take k cs) k (cl ! k) = Inr (cs ! k)"
    by (auto simp: calc_loop_Inr)
  show ?case
  proof (cases "cl ! k")
    case Start
    with less.prems show ?thesis by (simp add: at_start)
  next
    case Ignore
    with step less.prems show ?thesis by (simp add: cell_count_def)
  next
    case (Parent j)
    with step len less.prems obtain c where j: "j < k" and c: "cs ! j = Num c"
      by (auto simp: cell_count_def getitem_def cell_mul_def split: if_splits sum.splits cell.splits)
    from j less.prems(1) have "j < length cl" by simp
    with less.IH [OF j _ c] have "reaches_start cl j" by simp
    with Parent j less.prems(1) show ?thesis by (auto intro: via_parent)
  qed
qed

lemma calc_loop_parent_of_ignored:
  assumes "i < length cl" "cl ! i = Parent j" "j < length cl" "cl ! j = Ignore"
    and pre: "calc_loop conc ps 0 (take i cl) [] = Inr out"
  shows "calc_loop conc ps 0 cl [] =
           Inl (if j < i \<and> i < length ps then TypeError else IndexError)"
proof -
  from pre assms(1) have len: "length out = i" by (auto simp: calc_loop_Inr)
  have blank: "out ! j = Blank" if "j < i"
    using calc_loop_Ignore_Blank [OF pre] that assms(1,4) by simp
  have "cell_count conc ps out i (Parent j) =
          Inl (if j < i \<and> i < length ps then TypeError else IndexError)"
    using len blank by (auto simp: cell_count_def getitem_def cell_mul_def)
  moreover have "cl = take i cl @ (cl ! i) # drop (Suc i) cl"
    using assms(1) by (simp add: id_take_nth_drop)
  then have "calc_loop conc ps 0 cl [] = calc_loop conc ps 0 (take i cl @ (cl ! i) # drop (Suc i) cl) []"
    by simp
  ultimately show ?thesis
    using pre assms(1,2) by (simp only: calc_loop_append) (simp add: min_def)
qed

lemma calc_loop_parent_of_ignored_fails:
  assumes "i < length cl" "cl ! i = Parent j" "j < length cl" "cl ! j = Ignore"
  shows "\<exists>err. calc_loop conc ps 0 cl [] = Inl err"
proof (cases "calc_loop conc ps 0 (take i cl) []")
  case (Inl err)
  have "calc_loop conc ps 0 (take i cl @ drop i cl) [] = Inl err"
    using Inl by (simp only: calc_loop_append) simp
  then show ?thesis by simp
next
  case (Inr out)
  from calc_loop_parent_of_ignored [OF assms Inr] show ?thesis by blast
qed

text \<open>
  C1. For a tube as its constructor leaves it (no counts yet) and any \<open>calc_list\<close>, when
  \<open>calculate_cell_counts\<close> returns, the tube has one count per position, and at position
  \<open>i\<close>: a \<open>start\<close> entry holds \<open>cell_conc * percent_list[i]\<close>, an \<open>ignore\<close> entry holds the
  blank, and an index \<open>j\<close> holds \<open>count_list[j] * percent_list[i]\<close>, where \<open>j\<close> is an
  earlier position with a numeric count.
\<close>

theorem calculate_cell_counts_positions:
  assumes "calculate_cell_counts t calc_list = Inr t'"
    and "count_list t = []"
    and "i < length calc_list"
  shows "length (count_list t') = length calc_list \<and>
    (case calc_list ! i of
       Start \<Rightarrow> i < length (percent_list t) \<and>
         (\<exists>d. dec_mul (cell_conc t) (percent_list t ! i) = Inr d \<and> count_list t' ! i = Num d)
     | Ignore \<Rightarrow> count_list t' ! i = Blank
     | Parent j \<Rightarrow> j < i \<and> i < length (percent_list t) \<and>
         (\<exists>c d. count_list t' ! j = Num c \<and> dec_mul c (percent_list t ! i) = Inr d \<and>
            count_list t' ! i = Num d))"
proof -
  from assms(1) obtain out where out: "calc_loop (cell_conc t) (percent_list t) 0 calc_list [] = Inr out"
    and t': "count_list t' = out"
    unfolding calculate_cell_counts_def using assms(2) by (auto split: sum.splits)
  from out have len: "length out = length calc_list"
    and step: "cell_count (cell_conc t) (percent_list t) (take i out) i (calc_list ! i) = Inr (out ! i)"
    using assms(3) by (auto simp: calc_loop_Inr)
  show ?thesis
  proof (cases "calc_list ! i")
    case Start
    with step len t' show ?thesis
      by (auto simp: cell_count_def getitem_def cell_mul_def split: if_splits sum.splits)
  next
    case Ignore
    with step len t' show ?thesis by (simp add: cell_count_def)
  next
    case (Parent j)
    with step len t' assms(3) show ?thesis
      by (auto simp: cell_count_def getitem_def cell_mul_def split: if_splits sum.splits cell.splits)
  qed
qed

theorem calculate_cell_counts_positions_witness:
  "calculate_cell_counts
      \<lparr>tube_name = ''T1'', raw_percent = [''80'', ''50'', ''50''], group_id = '''',
        cell_conc = Finite False 10 0,
        percent_list = [Finite False 8 (- 1), Finite False 5 (- 1), Finite False 5 (- 1)],
        count_list = []\<rparr> [Start, Ignore, Parent 0]
   = Inr \<lparr>tube_name = ''T1'', raw_percent = [''80'', ''50'', ''50''], group_id = '''',
        cell_conc = Finite False 10 0,
        percent_list = [Finite False 8 (- 1), Finite False 5 (- 1), Finite False 5 (- 1)],
        count_list = [Num (Finite False 80 (- 1)), Blank, Num (Finite False 400 (- 2))]\<rparr>
   \<and> dec_mul (Finite False 80 (- 1)) (Finite False 5 (- 1)) = Inr (Finite False 400 (- 2))"
proof -
  let ?t = "\<lparr>tube_name = ''T1'', raw_percent = [''80'', ''50'', ''50''], group_id = '''',
        cell_conc = Finite False 10 0,
        percent_list = [Finite False 8 (- 1), Finite False 5 (- 1), Finite False 5 (- 1)],
        count_list = []\<rparr>"
  let ?t' = "?t\<lparr>count_list := [Num (Finite False 80 (- 1)), Blank, Num (Finite False 400 (- 2))]\<rparr>"
  have run: "calculate_cell_counts ?t [Start, Ignore, Parent 0] = Inr ?t'"
    by (simp add: calculate_cell_counts_def cell_count_def getitem_def cell_mul_def dec_fix_def
        ndigits.simps prec_def Etop_def Etiny_def Emax_def Emin_def Let_def)
  have fresh: "count_list ?t = []" by simp
  have pos: "2 < length [Start, Ignore, Parent 0]" by simp
  from calculate_cell_counts_positions [OF run fresh pos] run show ?thesis
    by simp
qed

text \<open>
  C10. On a tube with no counts yet, when position \<open>i\<close> holds the index \<open>j\<close> of a position
  whose entry is \<open>ignore\<close>, \<open>calculate_cell_counts\<close> raises; when the positions before \<open>i\<close>
  are computed without an exception, the exception is the one of position \<open>i\<close>: the
  TypeError of the blank times a Decimal (or the IndexError of a missing operand). And when
  the run returns, a position with a numeric count has a parent chain that reaches a
  \<open>start\<close> entry, through index entries only.
\<close>

theorem parent_of_ignored_fails:
  "(count_list t = [] \<and> i < length calc_list \<and> calc_list ! i = Parent j \<and>
      j < length calc_list \<and> calc_list ! j = Ignore \<longrightarrow>
      (\<exists>err. calculate_cell_counts t calc_list = Inl err) \<and>
      (\<forall>t1. calculate_cell_counts t (take i calc_list) = Inr t1 \<longrightarrow>
         calculate_cell_counts t calc_list =
           Inl (if j < i \<and> i < length (percent_list t) then TypeError else IndexError)))
   \<and> (count_list t = [] \<and> calculate_cell_counts t calc_list = Inr t' \<and>
      k < length calc_list \<and> count_list t' ! k = Num d \<longrightarrow> reaches_start calc_list k)"
proof (intro conjI impI allI)
  assume h: "count_list t = [] \<and> i < length calc_list \<and> calc_list ! i = Parent j \<and>
      j < length calc_list \<and> calc_list ! j = Ignore"
  then have "\<exists>err. calc_loop (cell_conc t) (percent_list t) 0 calc_list [] = Inl err"
    by (intro calc_loop_parent_of_ignored_fails) auto
  with h show "\<exists>err. calculate_cell_counts t calc_list = Inl err"
    by (auto simp: calculate_cell_counts_def)
next
  fix t1
  assume h: "count_list t = [] \<and> i < length calc_list \<and> calc_list ! i = Parent j \<and>
      j < length calc_list \<and> calc_list ! j = Ignore"
    and pre: "calculate_cell_counts t (take i calc_list) = Inr t1"
  from pre h obtain out where
    "calc_loop (cell_conc t) (percent_list t) 0 (take i calc_list) [] = Inr out"
    by (auto simp: calculate_cell_counts_def split: sum.splits)
  with h have "calc_loop (cell_conc t) (percent_list t) 0 calc_list [] =
      Inl (if j < i \<and> i < length (percent_list t) then TypeError else IndexError)"
    by (intro calc_loop_parent_of_ignored) auto
  with h show "calculate_cell_counts t calc_list =
      Inl (if j < i \<and> i < length (percent_list t) then TypeError else IndexError)"
    by (simp add: calculate_cell_counts_def)
next
  assume h: "count_list t = [] \<and> calculate_cell_counts t calc_list = Inr t' \<and>
      k < length calc_list \<and> count_list t' ! k = Num d"
  then obtain out where "calc_loop (cell_conc t) (percent_list t) 0 calc_list [] = Inr out"
    and "count_list t' = out"
    by (auto simp: calculate_cell_counts_def split: sum.splits)
  with h show "reaches_start calc_list k"
    using calc_loop_Num_reaches [of "cell_conc t" "percent_list t" calc_list out k d] by simp
qed

theorem parent_of_ignored_fails_witness:
  "calculate_cell_counts
      \<lparr>tube_name = ''T1'', raw_percent = [''50'', ''80'', ''50''], group_id = '''',
        cell_conc = Finite False 10 0,
        percent_list = [Finite False 5 (- 1), Finite False 8 (- 1), Finite False 5 (- 1)],
        count_list = []\<rparr> [Ignore, Parent 0] = Inl TypeError
   \<and> reaches_start [Ignore, Start, Parent 1] 2"
proof -
  let ?t = "\<lparr>tube_name = ''T1'', raw_percent = [''50'', ''80'', ''50''], group_id = '''',
        cell_conc = Finite False 10 0,
        percent_list = [Finite False 5 (- 1), Finite False 8 (- 1), Finite False 5 (- 1)],
        count_list = []\<rparr>"
  let ?t' = "?t\<lparr>count_list := [Blank, Num (Finite False 80 (- 1)), Num (Finite False 400 (- 2))]\<rparr>"
  let ?t1 = "?t\<lparr>count_list := [Blank]\<rparr>"
  have pre: "calculate_cell_counts ?t (take 1 [Ignore, Parent 0]) = Inr ?t1"
    by (simp add: calculate_cell_counts_def cell_count_def)
  have hyp1: "count_list ?t = [] \<and> 1 < length [Ignore, Parent 0] \<and> [Ignore, Parent 0] ! 1 = Parent 0 \<and>
      0 < length [Ignore, Parent 0] \<and> [Ignore, Parent 0] ! 0 = Ignore"
    by simp
  have run: "calculate_cell_counts ?t [Ignore, Start, Parent 1] = Inr ?t'"
    by (simp add: calculate_cell_counts_def cell_count_def getitem_def cell_mul_def dec_fix_def
        ndigits.simps prec_def Etop_def Etiny_def Emax_def Emin_def Let_def)
  have hyp2: "count_list ?t = [] \<and> calculate_cell_counts ?t [Ignore, Start, Parent 1] = Inr ?t' \<and>
      2 < length [Ignore, Start, Parent 1] \<and> count_list ?t' ! 2 = Num (Finite False 400 (- 2))"
    using run by simp
  have a: "calculate_cell_counts ?t [Ignore, Parent 0] = Inl TypeError"
    using parent_of_ignored_fails [of ?t 1 "[Ignore, Parent 0]" 0 ?t' 0 "Finite False 0 0"] hyp1 pre
    by simp
  have b: "reaches_start [Ignore, Start, Parent 1] 2"
    using parent_of_ignored_fails [of ?t 0 "[Ignore, Start, Parent 1]" 0 ?t' 2 "Finite False 400 (- 2)"] hyp2
    by blast
  from a b show ?thesis by simp
qed

text \<open>
  C8, as stated, at a concrete input: the second run on the same tube does not leave the
  count sequence of the first run, it leaves that sequence twice.
\<close>

theorem calculate_cell_counts_twice_counterexample:
  "calculate_cell_counts
      \<lparr>tube_name = ''T1'', raw_percent = [''80''], group_id = '''',
        cell_conc = Finite False 10 0, percent_list = [Finite False 8 (- 1)],
        count_list = []\<rparr> [Start]
   = Inr \<lparr>tube_name = ''T1'', raw_percent = [''80''], group_id = '''',
        cell_conc = Finite False 10 0, percent_list = [Finite False 8 (- 1)],
        count_list = [Num (Finite False 80 (- 1))]\<rparr>
   \<and> calculate_cell_counts
      \<lparr>tube_name = ''T1'', raw_percent = [''80''], group_id = '''',
        cell_conc = Finite False 10 0, percent_list = [Finite False 8 (- 1)],
        count_list = [Num (Finite False 80 (- 1))]\<rparr> [Start]
   = Inr \<lparr>tube_name = ''T1'', raw_percent = [''80''], group_id = '''',
        cell_conc = Finite False 10 0, percent_list = [Finite False 8 (- 1)],
        count_list = [Num (Finite False 80 (- 1)), Num (Finite False 80 (- 1))]\<rparr>
   \<and> [Num (Finite False 80 (- 1)), Num (Finite False 80 (- 1))] \<noteq> [Num (Finite False 80 (- 1))]"
  by (simp add: calculate_cell_counts_def cell_count_def getitem_def cell_mul_def dec_fix_def
        ndigits.simps prec_def Etop_def Etiny_def Emax_def Emin_def Let_def)

text \<open>
  C8, amended. The counts \<open>calculate_cell_counts\<close> leaves (or the exception it raises)
  depend on the tube's \<open>cell_conc\<close>, \<open>percent_list\<close> and \<open>count_list\<close> and on \<open>calc_list\<close>
  only; and a second run on the tube that a first run on a tube without counts returned
  keeps the counts of the first run and appends the same sequence once more.
\<close>

theorem calculate_cell_counts_deterministic:
  "(cell_conc t1 = cell_conc t2 \<and> percent_list t1 = percent_list t2 \<and>
      count_list t1 = count_list t2 \<longrightarrow>
      map_sum id count_list (calculate_cell_counts t1 calc_list) =
      map_sum id count_list (calculate_cell_counts t2 calc_list))
   \<and> (count_list t = [] \<and> calculate_cell_counts t calc_list = Inr t' \<longrightarrow>
      calculate_cell_counts t' calc_list = Inr (t'\<lparr>count_list := count_list t' @ count_list t'\<rparr>) \<and>
      length (count_list t') = length calc_list)"
proof (intro conjI impI)
  assume "cell_conc t1 = cell_conc t2 \<and> percent_list t1 = percent_list t2 \<and>
      count_list t1 = count_list t2"
  then show "map_sum id count_list (calculate_cell_counts t1 calc_list) =
      map_sum id count_list (calculate_cell_counts t2 calc_list)"
    by (simp add: calculate_cell_counts_def split: sum.splits)
next
  assume h: "count_list t = [] \<and> calculate_cell_counts t calc_list = Inr t'"
  then obtain out where out: "calc_loop (cell_conc t) (percent_list t) 0 calc_list [] = Inr out"
    and t': "t' = t\<lparr>count_list := out\<rparr>"
    by (auto simp: calculate_cell_counts_def split: sum.splits)
  from calc_loop_again [OF out] t'
  show "calculate_cell_counts t' calc_list = Inr (t'\<lparr>count_list := count_list t' @ count_list t'\<rparr>)"
    by (simp add: calculate_cell_counts_def)
  from out t' show "length (count_list t') = length calc_list"
    by (auto simp: calc_loop_Inr)
qed


theorem calculate_cell_counts_deterministic_witness:
  "map_sum id count_list (calculate_cell_counts
      \<lparr>tube_name = ''T1'', raw_percent = [''80''], group_id = ''a'',
        cell_conc = Finite False 10 0, percent_list = [Finite False 8 (- 1)],
        count_list = []\<rparr> [Start]) =
   map_sum id count_list (calculate_cell_counts
      \<lparr>tube_name = ''T2'', raw_percent = [''80.0''], group_id = ''b'',
        cell_conc = Finite False 10 0, percent_list = [Finite False 8 (- 1)],
        count_list = []\<rparr> [Start])
   \<and> calculate_cell_counts
      \<lparr>tube_name = ''T1'', raw_percent = [''80''], group_id = ''a'',
        cell_conc = Finite False 10 0, percent_list = [Finite False 8 (- 1)],
        count_list = [Num (Finite False 80 (- 1))]\<rparr> [Start]
   = Inr \<lparr>tube_name = ''T1'', raw_percent = [''80''], group_id = ''a'',
        cell_conc = Finite False 10 0, percent_list = [Finite False 8 (- 1)],
        count_list = [Num (Finite False 80 (- 1)), Num (Finite False 80 (- 1))]\<rparr>"
proof -
  let ?t1 = "\<lparr>tube_name = ''T1'', raw_percent = [''80''], group_id = ''a'',
        cell_conc = Finite False 10 0, percent_list = [Finite False 8 (- 1)],
        count_list = []\<rparr>"
  let ?t2 = "\<lparr>tube_name = ''T2'', raw_percent = [''80.0''], group_id = ''b'',
        cell_conc = Finite False 10 0, percent_list = [Finite False 8 (- 1)],
        count_list = []\<rparr>"
  let ?t' = "?t1\<lparr>count_list := [Num (Finite False 80 (- 1))]\<rparr>"
  have same: "cell_conc ?t1 = cell_conc ?t2 \<and> percent_list ?t1 = percent_list ?t2 \<and>
      count_list ?t1 = count_list ?t2"
    by simp
  have run: "count_list ?t1 = [] \<and> calculate_cell_counts ?t1 [Start] = Inr ?t'"
    by (simp add: calculate_cell_counts_def cell_count_def getitem_def cell_mul_def dec_fix_def
        ndigits.simps prec_def Etop_def Etiny_def Emax_def Emin_def Let_def)
  from calculate_cell_counts_deterministic [of ?t1 ?t2 "[Start]" ?t1 ?t'] same run
  show ?thesis by simp
qed

section \<open>Splitting and joining\<close>

lemma str_split_not_Nil [simp]: "str_split sep s \<noteq> []"
  by (cases s) (auto split: list.splits)

lemma str_split_free: "d \<notin> set b \<Longrightarrow> str_split [d] b = [b]"
  by (induction b) auto

lemma str_split_prefix: "d \<notin> set x \<Longrightarrow> str_split [d] (x @ d # r) = x # str_split [d] r"
  by (induction x) auto

lemma str_split_append: "d \<notin> set b \<Longrightarrow> str_split [d] (a @ d # b) = str_split [d] a @ [b]"
proof (induction a)
  case Nil
  then show ?case by (simp add: str_split_free)
next
  case (Cons c a)
  then show ?case by (cases "str_split [d] a") auto
qed

lemma join_Cons_Cons: "join sep ((c # w) # ws) = c # join sep (w # ws)"
  by (cases ws) auto

lemma join_str_split: "join [d] (str_split [d] s) = s"
proof (induction s)
  case Nil
  then show ?case by simp
next
  case (Cons c s)
  then show ?case
    by (cases "str_split [d] s") (auto simp: join_Cons_Cons)
qed

lemma str_split_segments_free: "w \<in> set (str_split [d] s) \<Longrightarrow> d \<notin> set w"
proof (induction s arbitrary: w)
  case Nil
  then show ?case by simp
next
  case (Cons c s)
  then show ?case
    by (cases "str_split [d] s") (auto split: if_splits)
qed

lemma str_split_join:
  "xs \<noteq> [] \<Longrightarrow> \<forall>x \<in> set xs. d \<notin> set x \<Longrightarrow> str_split [d] (join [d] xs) = xs"
proof (induction "[d]" xs rule: join.induct)
  case 1
  then show ?case by simp
next
  case (2 x)
  then show ?case by (simp add: str_split_free)
next
  case (3 x y ys)
  then show ?case by (simp add: str_split_prefix)
qed

lemma length_str_split: "length (str_split [d] s) = Suc (length (filter (\<lambda>c. c = d) s))"
proof (induction s)
  case Nil
  then show ?case by simp
next
  case (Cons c s)
  then show ?case by (cases "str_split [d] s") auto
qed

lemma rsplit1_decomp:
  assumes "d \<in> set s"
  shows "\<exists>b. s = rsplit1 d s @ d # b \<and> d \<notin> set b"
proof -
  let ?dw = "dropWhile (\<lambda>c. c \<noteq> d) (rev s)"
  let ?tw = "takeWhile (\<lambda>c. c \<noteq> d) (rev s)"
  from assms have ne: "?dw \<noteq> []" by (simp add: dropWhile_eq_Nil_conv)
  then have hd: "hd ?dw = d" using hd_dropWhile [of "\<lambda>c. c \<noteq> d" "rev s"] by simp
  have "rev s = ?tw @ ?dw" by simp
  also have "?dw = d # tl ?dw" using ne hd by (cases ?dw) auto
  finally have "rev (rev s) = rev (?tw @ d # tl ?dw)" by simp
  then have "s = rev (tl ?dw) @ d # rev ?tw" by simp
  moreover have "d \<notin> set (rev ?tw)"
    using set_takeWhileD [of d "\<lambda>c. c \<noteq> d" "rev s"] by auto
  ultimately show ?thesis using assms unfolding rsplit1_def by auto
qed

lemma rsplit1_butlast:
  assumes "d \<in> set s"
  shows "rsplit1 d s = join [d] (butlast (str_split [d] s))"
proof -
  from rsplit1_decomp [OF assms] obtain b where s: "s = rsplit1 d s @ d # b" and b: "d \<notin> set b"
    by blast
  have "str_split [d] s = str_split [d] (rsplit1 d s @ d # b)" using s by simp
  also have "\<dots> = str_split [d] (rsplit1 d s) @ [b]" using b by (rule str_split_append)
  finally show ?thesis by (simp add: join_str_split)
qed

lemma rsplit1_free: "d \<notin> set s \<Longrightarrow> rsplit1 d s = s"
  by (simp add: rsplit1_def)

section \<open>find_parent_gate\<close>

lemma list_index_Inr:
  "list_index xs x = Inr j \<longleftrightarrow> j < length xs \<and> xs ! j = x \<and> (\<forall>k < j. xs ! k \<noteq> x)"
proof (induction xs arbitrary: j)
  case Nil
  then show ?case by simp
next
  case (Cons y ys)
  show ?case
  proof (cases "y = x")
    case True
    then show ?thesis by (cases j) auto
  next
    case False
    show ?thesis
    proof (cases j)
      case 0
      with False show ?thesis by (auto split: sum.splits)
    next
      case (Suc j')
      have "(\<forall>k < Suc j'. (y # ys) ! k \<noteq> x) \<longleftrightarrow> (\<forall>k < j'. ys ! k \<noteq> x)"
        using False by (auto simp: less_Suc_eq_0_disj)
      with False Suc Cons.IH [of j'] show ?thesis by (auto split: sum.splits)
    qed
  qed
qed

lemma list_index_Inl:
  "list_index xs x = Inl err \<longleftrightarrow> x \<notin> set xs \<and> err = ValueError (NotInList x)"
  by (induction xs) (auto split: sum.splits)

lemma find_parent_loop_Inr:
  "find_parent_loop s g ig ps = Inr cl \<longleftrightarrow>
     length cl = length ps \<and> (\<forall>i < length ps. parent_entry s g ig (ps ! i) = Inr (cl ! i))"
proof (induction ps arbitrary: cl)
  case Nil
  then show ?case by auto
next
  case (Cons p ps)
  show ?case
  proof (cases cl)
    case Nil
    then show ?thesis by (auto split: sum.splits)
  next
    case (Cons c cl')
    have "(\<forall>i < length (p # ps). parent_entry s g ig ((p # ps) ! i) = Inr ((c # cl') ! i)) \<longleftrightarrow>
          parent_entry s g ig p = Inr c \<and> (\<forall>i < length ps. parent_entry s g ig (ps ! i) = Inr (cl' ! i))"
      by (auto simp: less_Suc_eq_0_disj)
    with Cons Cons.IH [of cl'] show ?thesis by (auto split: sum.splits)
  qed
qed

lemma find_parent_loop_Inl:
  "find_parent_loop s g ig ps = Inl err \<Longrightarrow>
     \<exists>p \<in> set ps. parent_entry s g ig p = Inl err"
  by (induction ps) (auto split: sum.splits)

lemma find_parent_loop_fails:
  "p \<in> set ps \<Longrightarrow> parent_entry s g ig p = Inl e \<Longrightarrow> \<exists>err. find_parent_loop s g ig ps = Inl err"
  by (induction ps) (auto split: sum.splits)

lemma list_index_mem: "list_index xs x = Inr j \<Longrightarrow> x \<in> set xs"
  by (auto simp: list_index_Inr)

lemma parent_entry_Inl:
  "parent_entry s g ig p = Inl err \<longleftrightarrow>
     p \<notin> set s \<and> p \<notin> set ig \<and> rsplit1 (CHR ''/'') p \<notin> set g \<and>
     err = ValueError (NotInList (rsplit1 (CHR ''/'') p))"
  by (auto simp: parent_entry_def list_index_Inl dest: list_index_mem split: sum.splits)

lemma find_parent_gate_total:
  assumes "\<forall>p \<in> set g. p \<notin> set s \<longrightarrow> p \<notin> set ig \<longrightarrow> rsplit1 (CHR ''/'') p \<in> set g"
  shows "\<exists>cl. find_parent_gate s g ig = Inr cl"
proof (cases "find_parent_gate s g ig")
  case (Inl err)
  then obtain p where "p \<in> set g" "parent_entry s g ig p = Inl err"
    unfolding find_parent_gate_def by (blast dest: find_parent_loop_Inl)
  with assms show ?thesis by (auto simp: parent_entry_Inl)
next
  case (Inr cl)
  then show ?thesis by blast
qed

text \<open>
  C6, as stated, at concrete inputs: the exception for the gate \<^verbatim>\<open>X/Y\<close> without its parent
  names the parent \<^verbatim>\<open>X\<close> that \<open>list.index\<close> searched for, not the gate; and a gate of one
  segment that is neither a start nor ignored gets its own index, since
  \<open>rsplit("/", 1)[0]\<close> of a string without a slash is the string.
\<close>

theorem find_parent_gate_orphan_counterexample:
  "find_parent_gate [] [''X/Y''] [] = Inl (ValueError (NotInList ''X'')) \<and>
   find_parent_gate [''A'', ''B''] [''A'', ''B'', ''X/Y''] [] = Inl (ValueError (NotInList ''X'')) \<and>
   ''X'' \<noteq> ''X/Y'' \<and>
   find_parent_gate [] [''X''] [] = Inr [Parent 0]"
  by (simp add: find_parent_gate_def parent_entry_def rsplit1_def)

text \<open>
  C6, amended. For a gate \<open>p\<close> of \<open>g_list\<close> that is neither in \<open>start_gate_list\<close> nor in
  \<open>i_list\<close>: the parent searched for is \<open>p\<close> without its last segment when \<open>p\<close> has a
  slash, and \<open>p\<close> itself when it has none; when \<open>find_parent_gate\<close> returns, the entry of
  \<open>p\<close> is the first index of that parent in \<open>g_list\<close>; when the parent is not in
  \<open>g_list\<close>, \<open>find_parent_gate\<close> raises the ValueError of the first gate with a missing
  parent, which names that missing parent; and it returns whenever no parent is missing.
\<close>

theorem find_parent_gate_parent:
  assumes "i < length g_list"
    and "g_list ! i \<notin> set start_gate_list"
    and "g_list ! i \<notin> set i_list"
  shows "(CHR ''/'' \<in> set (g_list ! i) \<longrightarrow>
            rsplit1 (CHR ''/'') (g_list ! i) = join ''/'' (butlast (str_split ''/'' (g_list ! i)))) \<and>
         (CHR ''/'' \<notin> set (g_list ! i) \<longrightarrow> rsplit1 (CHR ''/'') (g_list ! i) = g_list ! i) \<and>
         (\<forall>calc_list. find_parent_gate start_gate_list g_list i_list = Inr calc_list \<longrightarrow>
            (\<exists>j. calc_list ! i = Parent j \<and> j < length g_list \<and>
                 g_list ! j = rsplit1 (CHR ''/'') (g_list ! i) \<and>
                 (\<forall>k < j. g_list ! k \<noteq> rsplit1 (CHR ''/'') (g_list ! i)))) \<and>
         (rsplit1 (CHR ''/'') (g_list ! i) \<notin> set g_list \<longrightarrow>
            (\<exists>p \<in> set g_list. p \<notin> set start_gate_list \<and> p \<notin> set i_list \<and>
               rsplit1 (CHR ''/'') p \<notin> set g_list \<and>
               find_parent_gate start_gate_list g_list i_list =
                 Inl (ValueError (NotInList (rsplit1 (CHR ''/'') p))))) \<and>
         ((\<forall>p \<in> set g_list. p \<notin> set start_gate_list \<longrightarrow> p \<notin> set i_list \<longrightarrow>
              rsplit1 (CHR ''/'') p \<in> set g_list) \<longrightarrow>
            (\<exists>calc_list. find_parent_gate start_gate_list g_list i_list = Inr calc_list))"
proof (intro conjI impI allI)
  assume "CHR ''/'' \<in> set (g_list ! i)"
  then show "rsplit1 (CHR ''/'') (g_list ! i) = join ''/'' (butlast (str_split ''/'' (g_list ! i)))"
    by (rule rsplit1_butlast)
next
  assume "CHR ''/'' \<notin> set (g_list ! i)"
  then show "rsplit1 (CHR ''/'') (g_list ! i) = g_list ! i"
    by (rule rsplit1_free)
next
  fix calc_list
  assume "find_parent_gate start_gate_list g_list i_list = Inr calc_list"
  with assms(1) have "parent_entry start_gate_list g_list i_list (g_list ! i) = Inr (calc_list ! i)"
    by (simp add: find_parent_gate_def find_parent_loop_Inr)
  with assms(2,3) show "\<exists>j. calc_list ! i = Parent j \<and> j < length g_list \<and>
      g_list ! j = rsplit1 (CHR ''/'') (g_list ! i) \<and>
      (\<forall>k < j. g_list ! k \<noteq> rsplit1 (CHR ''/'') (g_list ! i))"
    by (auto simp: parent_entry_def list_index_Inr split: sum.splits) (metis)
next
  assume "rsplit1 (CHR ''/'') (g_list ! i) \<notin> set g_list"
  with assms have "parent_entry start_gate_list g_list i_list (g_list ! i) =
      Inl (ValueError (NotInList (rsplit1 (CHR ''/'') (g_list ! i))))"
    by (simp add: parent_entry_Inl)
  moreover have "g_list ! i \<in> set g_list" using assms(1) by simp
  ultimately obtain err where "find_parent_gate start_gate_list g_list i_list = Inl err"
    unfolding find_parent_gate_def by (blast dest: find_parent_loop_fails)
  moreover from this obtain p where "p \<in> set g_list"
    "parent_entry start_gate_list g_list i_list p = Inl err"
    unfolding find_parent_gate_def by (blast dest: find_parent_loop_Inl)
  ultimately show "\<exists>p \<in> set g_list. p \<notin> set start_gate_list \<and> p \<notin> set i_list \<and>
      rsplit1 (CHR ''/'') p \<notin> set g_list \<and>
      find_parent_gate start_gate_list g_list i_list =
        Inl (ValueError (NotInList (rsplit1 (CHR ''/'') p)))"
    by (auto simp: parent_entry_Inl)
next
  assume "\<forall>p \<in> set g_list. p \<notin> set start_gate_list \<longrightarrow> p \<notin> set i_list \<longrightarrow>
      rsplit1 (CHR ''/'') p \<in> set g_list"
  then show "\<exists>calc_list. find_parent_gate start_gate_list g_list i_list = Inr calc_list"
    by (rule find_parent_gate_total)
qed

theorem find_parent_gate_parent_witness:
  "find_parent_gate [''A'', ''B''] [''A'', ''B'', ''A/C''] [] = Inr [Start, Start, Parent 0] \<and>
   rsplit1 (CHR ''/'') ''A/C'' = join ''/'' (butlast (str_split ''/'' ''A/C'')) \<and>
   [''A'', ''B'', ''A/C''] ! 0 = rsplit1 (CHR ''/'') ''A/C'' \<and>
   (\<exists>p \<in> set [''X/Y'']. find_parent_gate [] [''X/Y''] [] =
      Inl (ValueError (NotInList (rsplit1 (CHR ''/'') p))))"
proof -
  have a: "(2::nat) < length [''A'', ''B'', ''A/C'']" by simp
  have b: "[''A'', ''B'', ''A/C''] ! 2 \<notin> set [''A'', ''B'']" by simp
  have c: "[''A'', ''B'', ''A/C''] ! 2 \<notin> set []" by simp
  have run: "find_parent_gate [''A'', ''B''] [''A'', ''B'', ''A/C''] [] = Inr [Start, Start, Parent 0]"
    by (simp add: find_parent_gate_def parent_entry_def rsplit1_def)
  have a': "(0::nat) < length [''X/Y'']" by simp
  have b': "[''X/Y''] ! 0 \<notin> set []" by simp
  have orphan: "rsplit1 (CHR ''/'') ([''X/Y''] ! 0) \<notin> set [''X/Y'']" by (simp add: rsplit1_def)
  from find_parent_gate_parent [OF a b c] find_parent_gate_parent [OF a' b' b'] run orphan
  show ?thesis by (simp add: rsplit1_def)
qed

section \<open>check_starting_gate\<close>

lemma scan_lengths_fst:
  "fst (scan_lengths ls C R) \<longleftrightarrow>
     length (filter (\<lambda>l. l = 1) ls) + (if 1 \<in> C then 1 else 0) \<le> 1"
  by (induction ls arbitrary: C R) auto

lemma scan_lengths_True:
  "scan_lengths ls C R = (True, C', R') \<Longrightarrow>
     C' = C \<union> set ls \<and>
     R' = R \<union> {l \<in> set ls. l \<in> C \<or> 2 \<le> length (filter (\<lambda>x. x = l) ls)}"
proof (induction ls arbitrary: C R)
  case Nil
  then show ?case by simp
next
  case (Cons l ls)
  show ?case
  proof (cases "l \<in> C")
    case True
    with Cons.prems have rest: "scan_lengths ls (insert l C) (insert l R) = (True, C', R')"
      by (auto split: if_splits)
    from Cons.IH [OF rest] True show ?thesis
      by (auto simp: filter_empty_conv le_Suc_eq)
  next
    case False
    with Cons.prems have rest: "scan_lengths ls (insert l C) R = (True, C', R')"
      by (auto split: if_splits)
    have *: "l \<in> set ls \<longleftrightarrow> 1 \<le> length (filter (\<lambda>x. x = l) ls)"
      by (auto simp: Suc_le_eq filter_empty_conv)
    from Cons.IH [OF rest] False show ?thesis
      using * by (auto simp: filter_empty_conv le_Suc_eq)
  qed
qed

lemma scan_lengths_stops:
  "1 \<in> C \<union> set pre \<Longrightarrow>
     scan_lengths (pre @ 1 # post) C R = scan_lengths (pre @ [1]) C R"
  by (induction pre arbitrary: C R) auto

lemma scan_lengths_second_one:
  assumes "1 \<in> C \<union> set pre"
  shows "\<not> fst (scan_lengths (pre @ 1 # post) C R)"
proof -
  have "1 \<in> set pre \<Longrightarrow> 1 \<le> length (filter (\<lambda>l. l = 1) pre)"
    by (auto simp: Suc_le_eq filter_empty_conv)
  with assms show ?thesis
    unfolding scan_lengths_fst by auto
qed

lemma second_one_split:
  assumes "i < j" "j < length gates" "snd (gates ! i) = 1" "snd (gates ! j) = 1"
  shows "map snd gates = map snd (take j gates) @ 1 # map snd (drop (Suc j) gates)"
    and "1 \<in> set (map snd (take j gates))"
proof -
  have "gates = take j gates @ gates ! j # drop (Suc j) gates"
    using assms(2) by (rule id_take_nth_drop)
  then have "map snd gates = map snd (take j gates @ gates ! j # drop (Suc j) gates)"
    by simp
  with assms(4) show "map snd gates = map snd (take j gates) @ 1 # map snd (drop (Suc j) gates)"
    by simp
  have "take j gates ! i = gates ! i" using assms(1) by simp
  moreover have "i < length (take j gates)" using assms(1,2) by simp
  ultimately have "gates ! i \<in> set (take j gates)" by (metis nth_mem)
  with assms(3) show "1 \<in> set (map snd (take j gates))" by force
qed

text \<open>
  C2. When the value 1 stands at two places \<open>i < j\<close> of the dict \<open>gates\<close>,
  \<open>check_starting_gate\<close> returns every gate whose number is 1 as the starting gates and an
  empty ignore list, and reads nothing from standard input; the first loop breaks no later
  than at \<open>j\<close>: whatever follows position \<open>j\<close> leaves its result unchanged. For the header
  row of the gates \<^verbatim>\<open>A\<close>, \<^verbatim>\<open>B\<close>, \<^verbatim>\<open>A/C\<close> the starting gates are \<^verbatim>\<open>A\<close> and \<^verbatim>\<open>B\<close>, and
  \<open>find_parent_gate\<close> gives \<^verbatim>\<open>A/C\<close> the index of \<^verbatim>\<open>A\<close>.
\<close>

theorem check_starting_gate_multi_root:
  "(i < j \<and> j < length gates \<and> snd (gates ! i) = 1 \<and> snd (gates ! j) = 1 \<longrightarrow>
      check_starting_gate gates stdin =
        Inr ((map fst (filter (\<lambda>(x, y). y = 1) gates), []), stdin) \<and>
      \<not> fst (scan_lengths (map snd gates) {} {}) \<and>
      (\<forall>others. scan_lengths (map snd (take (Suc j) gates @ others)) {} {} =
         scan_lengths (map snd gates) {} {}))
   \<and> read_gates [''A | Freq. of Parent (%)'', ''B | Freq. of Parent (%)'',
                  ''A/C | Freq. of Parent (%)''] [] []
        = Inr ([''A'', ''B'', ''A/C''], [(''A'', 1), (''B'', 1), (''A/C'', 2)])
   \<and> check_starting_gate [(''A'', 1), (''B'', 1), (''A/C'', 2)] stdin
        = Inr (([''A'', ''B''], []), stdin)
   \<and> find_parent_gate [''A'', ''B''] [''A'', ''B'', ''A/C''] [] = Inr [Start, Start, Parent 0]
   \<and> [''A'', ''B'', ''A/C''] ! 0 = ''A''"
proof (intro conjI impI allI)
  assume h: "i < j \<and> j < length gates \<and> snd (gates ! i) = 1 \<and> snd (gates ! j) = 1"
  then have split: "map snd gates = map snd (take j gates) @ 1 # map snd (drop (Suc j) gates)"
    and one: "1 \<in> {} \<union> set (map snd (take j gates))"
    using second_one_split [of i j gates] by simp_all
  show nf: "\<not> fst (scan_lengths (map snd gates) {} {})"
    using scan_lengths_second_one [OF one, of "map snd (drop (Suc j) gates)" "{}"] split by simp
  then show "check_starting_gate gates stdin =
      Inr ((map fst (filter (\<lambda>(x, y). y = 1) gates), []), stdin)"
    by (cases "scan_lengths (map snd gates) {} {}") (simp add: check_starting_gate_def)
  fix others :: "(string \<times> nat) list"
  have "take (Suc j) gates = take j gates @ [gates ! j]"
    using h by (simp add: take_Suc_conv_app_nth)
  then have "map snd (take (Suc j) gates @ others) = map snd (take j gates) @ 1 # map snd others"
    using h by simp
  then show "scan_lengths (map snd (take (Suc j) gates @ others)) {} {} =
      scan_lengths (map snd gates) {} {}"
    using scan_lengths_stops [OF one, of "map snd others" "{}"]
      scan_lengths_stops [OF one, of "map snd (drop (Suc j) gates)" "{}"] split
    by simp
next
  show "read_gates [''A | Freq. of Parent (%)'', ''B | Freq. of Parent (%)'',
                  ''A/C | Freq. of Parent (%)''] [] []
        = Inr ([''A'', ''B'', ''A/C''], [(''A'', 1), (''B'', 1), (''A/C'', 2)])"
    by simp
next
  show "check_starting_gate [(''A'', 1), (''B'', 1), (''A/C'', 2)] stdin
        = Inr (([''A'', ''B''], []), stdin)"
    by (simp add: check_starting_gate_def)
next
  show "find_parent_gate [''A'', ''B''] [''A'', ''B'', ''A/C''] [] = Inr [Start, Start, Parent 0]"
    by (simp add: find_parent_gate_def parent_entry_def rsplit1_def)
next
  show "[''A'', ''B'', ''A/C''] ! 0 = ''A''" by simp
qed

theorem check_starting_gate_multi_root_witness:
  "check_starting_gate [(''A'', 1), (''A/C'', 2), (''B'', 1), (''D'', 1)] [''1'']
     = Inr (([''A'', ''B'', ''D''], []), [''1''])
   \<and> scan_lengths (map snd ([(''A'', 1), (''A/C'', 2), (''B'', 1)] @ [(''E/F'', 2)])) {} {}
     = scan_lengths (map snd [(''A'', 1), (''A/C'', 2), (''B'', 1), (''D'', 1)]) {} {}"
proof -
  let ?g = "[(''A'', 1::nat), (''A/C'', 2), (''B'', 1), (''D'', 1)]"
  have h: "(0::nat) < 2 \<and> 2 < length ?g \<and> snd (?g ! 0) = 1 \<and> snd (?g ! 2) = 1"
    by simp
  from check_starting_gate_multi_root [of 0 2 ?g "[''1'']"] h
  have a: "check_starting_gate ?g [''1''] = Inr ((map fst (filter (\<lambda>(x, y). y = 1) ?g), []), [''1''])"
    and b: "\<forall>others. scan_lengths (map snd (take (Suc 2) ?g @ others)) {} {} =
         scan_lengths (map snd ?g) {} {}"
    by blast+
  from a b [rule_format, of "[(''E/F'', 2)]"] show ?thesis by simp
qed

lemma update_member:
  "(g, n) \<in> set (AList.update k v al) \<Longrightarrow> (g, n) = (k, v) \<or> (g, n) \<in> set al"
  by (induction al) (auto split: if_splits)

lemma read_gates_inv:
  "read_gates hs go gd = Inr (go', gd') \<Longrightarrow>
   fst ` set gd = set go \<Longrightarrow>
   (\<forall>(g, n) \<in> set gd. n = length (str_split ''/'' g)) \<Longrightarrow>
   distinct (map fst gd) \<Longrightarrow>
     fst ` set gd' = set go' \<and>
     (\<forall>(g, n) \<in> set gd'. n = length (str_split ''/'' g)) \<and>
     distinct (map fst gd')"
proof (induction hs arbitrary: go gd)
  case Nil
  then show ?case by simp
next
  case (Cons h hs)
  from Cons.prems(1) obtain a b where ab: "str_split '' | '' h = [a, b]"
    and rest: "read_gates hs (go @ [a]) (AList.update a (length (str_split ''/'' a)) gd) = Inr (go', gd')"
    by (auto split: if_splits list.splits)
  let ?gd = "AList.update a (length (str_split ''/'' a)) gd"
  have 1: "fst ` set ?gd = set (go @ [a])"
    using Cons.prems(2) by (simp add: dom_update)
  have 2: "\<forall>(g, n) \<in> set ?gd. n = length (str_split ''/'' g)"
    using Cons.prems(3) by (auto dest: update_member)
  have 3: "distinct (map fst ?gd)"
    using Cons.prems(4) by (rule distinct_update)
  from Cons.IH [OF rest 1 2 3] show ?case .
qed

lemma read_gates_dict:
  assumes "read_gates headers [] [] = Inr (gate_order, gates)"
  shows "fst ` set gates = set gate_order"
    and "\<And>g n. (g, n) \<in> set gates \<Longrightarrow> n = length (str_split ''/'' g)"
    and "distinct (map fst gates)"
    and "\<And>g. g \<in> set gate_order \<Longrightarrow> map_of gates g = Some (length (str_split ''/'' g))"
proof -
  from read_gates_inv [OF assms] have inv: "fst ` set gates = set gate_order"
    "\<forall>(g, n) \<in> set gates. n = length (str_split ''/'' g)" "distinct (map fst gates)"
    by simp_all
  show "fst ` set gates = set gate_order" by (rule inv(1))
  show "\<And>g n. (g, n) \<in> set gates \<Longrightarrow> n = length (str_split ''/'' g)" using inv(2) by auto
  show "distinct (map fst gates)" by (rule inv(3))
  fix g assume "g \<in> set gate_order"
  with inv(1) obtain n where gn: "(g, n) \<in> set gates" by force
  with inv(2) have "n = length (str_split ''/'' g)" by blast
  with gn inv(3) show "map_of gates g = Some (length (str_split ''/'' g))"
    by (simp add: map_of_eq_Some_iff)
qed

lemma find_min_gate_unique:
  "\<forall>(g, n) \<in> set gates. n = d \<longrightarrow> g = a \<Longrightarrow>
     find_min_gate gates d m = (if d \<in> snd ` set gates then a else m)"
proof (induction gates arbitrary: m)
  case Nil
  then show ?case by simp
next
  case (Cons p gates)
  obtain g n where p: "p = (g, n)" by (cases p)
  from Cons.prems have rest: "\<forall>(g, n) \<in> set gates. n = d \<longrightarrow> g = a" by simp
  show ?case
  proof (cases "n = d")
    case True
    with Cons.prems p have "g = a" by simp
    with True p Cons.IH [OF rest, of a] show ?thesis by simp
  next
    case False
    with p Cons.IH [OF rest, of m] show ?thesis by simp
  qed
qed

lemma find_unique:
  assumes "a \<in> set xs" "P a" "\<forall>x \<in> set xs. P x \<longrightarrow> x = a"
  shows "find P xs = Some a"
  using assms
proof (induction xs)
  case Nil
  then show ?case by simp
next
  case (Cons x xs)
  show ?case
  proof (cases "P x")
    case True
    with Cons.prems(3) have "x = a" by simp
    with True show ?thesis by simp
  next
    case False
    with Cons.prems(1,2) have "a \<in> set xs" by auto
    moreover from Cons.prems(3) have "\<forall>x \<in> set xs. P x \<longrightarrow> x = a" by simp
    ultimately have "find P xs = Some a" using Cons.IH Cons.prems(2) by blast
    with False show ?thesis by simp
  qed
qed

lemma filter_two:
  assumes "x \<in> set xs" "y \<in> set xs" "x \<noteq> y" "P x" "P y"
  shows "2 \<le> length (filter P xs)"
proof -
  have "{x, y} \<subseteq> set (filter P xs)" using assms by simp
  then have "card {x, y} \<le> card (set (filter P xs))" by (intro card_mono) simp_all
  also have "\<dots> \<le> length (filter P xs)" by (rule card_length)
  finally show ?thesis using assms(3) by simp
qed

lemma scan_lengths_unique:
  assumes "scan_lengths ls {} {} = (True, C, R)"
  shows "C - R = {d. length (filter (\<lambda>x. x = d) ls) = 1}" and "finite (C - R)"
proof -
  from scan_lengths_True [OF assms]
  have C: "C = set ls" and R: "R = {l \<in> set ls. 2 \<le> length (filter (\<lambda>x. x = l) ls)}"
    by simp_all
  have mem: "l \<in> set ls \<longleftrightarrow> 1 \<le> length (filter (\<lambda>x. x = l) ls)" for l
    by (simp add: Suc_le_eq filter_empty_conv)
  have "l \<in> C - R \<longleftrightarrow> length (filter (\<lambda>x. x = l) ls) = 1" for l
  proof -
    define n where "n = length (filter (\<lambda>x. x = l) ls)"
    have "l \<in> set ls \<longleftrightarrow> 1 \<le> n" unfolding n_def by (rule mem)
    moreover have "l \<in> C - R \<longleftrightarrow> l \<in> set ls \<and> \<not> 2 \<le> n"
      unfolding C R n_def by blast
    ultimately have "l \<in> C - R \<longleftrightarrow> 1 \<le> n \<and> \<not> 2 \<le> n" by blast
    also have "\<dots> \<longleftrightarrow> n = 1" by arith
    finally show ?thesis unfolding n_def .
  qed
  then show "C - R = {d. length (filter (\<lambda>x. x = d) ls) = 1}"
    by (intro set_eqI) simp
  show "finite (C - R)" unfolding C by simp
qed

lemma count_snd: "length (filter (\<lambda>x. x = d) (map snd gates)) = length (filter (\<lambda>g. snd g = d) gates)"
  by (induction gates) simp_all

lemma unique_depth_gate:
  assumes "length (filter (\<lambda>g. snd g = d) gates) = 1"
  shows "\<exists>a. (a, d) \<in> set gates \<and> (\<forall>(g, n) \<in> set gates. n = d \<longrightarrow> g = a)"
proof -
  from assms obtain p where p: "filter (\<lambda>g. snd g = d) gates = [p]"
    by (cases "filter (\<lambda>g. snd g = d) gates") auto
  then have "p \<in> set (filter (\<lambda>g. snd g = d) gates)" by simp
  then have pin: "p \<in> set gates" and pd: "snd p = d" by simp_all
  have "q = p" if "q \<in> set gates" "snd q = d" for q
  proof (rule ccontr)
    assume "q \<noteq> p"
    with that pin pd have "2 \<le> length (filter (\<lambda>g. snd g = d) gates)"
      by (intro filter_two [of q gates p]) simp_all
    with assms show False by simp
  qed
  then have "\<forall>(g, n) \<in> set gates. n = d \<longrightarrow> g = fst p" by fastforce
  moreover have "(fst p, d) \<in> set gates" using pin pd by (metis prod.collapse)
  ultimately show ?thesis by blast
qed

lemma ask_level_range: "ask_level n stdin = Inr (k, rest) \<Longrightarrow> 0 < k \<and> k \<le> n"
proof (induction n stdin rule: ask_level.induct)
  case (1 n)
  then show ?case by simp
next
  case (2 n answer stdin)
  show ?case
  proof (cases "py_int answer")
    case None
    with 2 show ?thesis by (auto split: sum.splits)
  next
    case (Some a)
    with 2 show ?thesis by (auto split: sum.splits if_splits)
  qed
qed

lemma depth_join_take:
  assumes "0 < k" "k \<le> length (str_split [d] s)"
  shows "length (str_split [d] (join [d] (take k (str_split [d] s)))) = k"
proof -
  have "take k (str_split [d] s) \<noteq> []" using assms by auto
  moreover have "\<forall>x \<in> set (take k (str_split [d] s)). d \<notin> set x"
    using str_split_segments_free in_set_takeD by metis
  ultimately have "str_split [d] (join [d] (take k (str_split [d] s))) = take k (str_split [d] s)"
    by (rule str_split_join)
  with assms show ?thesis by simp
qed

lemma min_gate_first:
  assumes read: "read_gates headers [] [] = Inr (gate_order, gates)"
    and scan: "scan_lengths (map snd gates) {} {} = (True, C, R)"
    and ne: "C - R \<noteq> {}"
  shows "find (\<lambda>g. length (str_split ''/'' g) = Max (C - R)) gate_order
           = Some (find_min_gate gates (Max (C - R)) '''')"
proof -
  let ?d = "Max (C - R)"
  have "?d \<in> C - R" using scan_lengths_unique(2) [OF scan] ne by (rule Max_in)
  moreover have "C - R = {d. length (filter (\<lambda>x. x = d) (map snd gates)) = 1}"
    by (rule scan_lengths_unique(1) [OF scan])
  ultimately have "?d \<in> {d. length (filter (\<lambda>x. x = d) (map snd gates)) = 1}"
    by (rule subst [where P = "\<lambda>S. ?d \<in> S", rotated])
  then have "length (filter (\<lambda>g. snd g = ?d) gates) = 1"
    by (simp only: count_snd mem_Collect_eq)
  from unique_depth_gate [OF this] obtain a where a: "(a, ?d) \<in> set gates"
    and uniq: "\<forall>(g, n) \<in> set gates. n = ?d \<longrightarrow> g = a"
    by blast
  from a have "?d \<in> snd ` set gates" by force
  with find_min_gate_unique [OF uniq, of "''''"] have min: "find_min_gate gates ?d '''' = a"
    by simp
  from a have "a \<in> fst ` set gates" by force
  then have ain: "a \<in> set gate_order" using read_gates_dict(1) [OF read] by simp
  have ad: "length (str_split ''/'' a) = ?d" using read_gates_dict(2) [OF read a] by simp
  have "x = a" if "x \<in> set gate_order" "length (str_split ''/'' x) = ?d" for x
  proof -
    from that(1) have "map_of gates x = Some (length (str_split ''/'' x))"
      by (rule read_gates_dict(4) [OF read])
    then have "(x, length (str_split ''/'' x)) \<in> set gates" by (rule map_of_SomeD)
    with that(2) uniq show ?thesis by auto
  qed
  then have all: "\<forall>x \<in> set gate_order. length (str_split ''/'' x) = ?d \<longrightarrow> x = a" by blast
  have "find (\<lambda>g. length (str_split ''/'' g) = ?d) gate_order = Some a"
  proof (rule find_unique)
    show "a \<in> set gate_order" by (rule ain)
    show "length (str_split ''/'' a) = ?d" by (rule ad)
    show "\<forall>x \<in> set gate_order. length (str_split ''/'' x) = ?d \<longrightarrow> x = a" by (rule all)
  qed
  then show ?thesis unfolding min .
qed

lemma ignore_list_depth:
  "\<forall>(g, n) \<in> set gates. n = length (str_split ''/'' g) \<Longrightarrow>
     map fst (filter (\<lambda>(gate, number). number < k) gates) =
     filter (\<lambda>g. length (str_split ''/'' g) < k) (map fst gates)"
proof (induction gates)
  case Nil
  then show ?case by simp
next
  case (Cons p gates)
  obtain g n where p: "p = (g, n)" by (cases p)
  with Cons.prems have n: "n = length (str_split ''/'' g)" by simp
  from Cons.prems have "\<forall>(g, n) \<in> set gates. n = length (str_split ''/'' g)" by simp
  from Cons.IH [OF this] p n show ?case by simp
qed

text \<open>
  C4. For the gates of a header row, when the first loop of \<open>check_starting_gate\<close> ends
  without a break and some length is in \<open>lengths_checked\<close> but not in \<open>redundant_lengths\<close>,
  the gate \<open>min_gate\<close> passed to \<open>ask_starting_gate\<close> is the first gate of \<open>gate_order\<close>
  with \<open>longest_shared\<close> segments. (Several gates of \<open>gate_order\<close> have that many segments
  only when one path stands in several columns: the dict holds it once.)
\<close>

theorem candidate_anchor_first:
  assumes "read_gates headers [] [] = Inr (gate_order, gates)"
    and "scan_lengths (map snd gates) {} {} = (True, lengths_checked, redundant_lengths)"
    and "lengths_checked - redundant_lengths \<noteq> {}"
  shows "\<exists>min_gate.
      find (\<lambda>g. length (str_split ''/'' g) = Max (lengths_checked - redundant_lengths)) gate_order
        = Some min_gate \<and>
      find_min_gate gates (Max (lengths_checked - redundant_lengths)) '''' = min_gate \<and>
      check_starting_gate gates stdin =
        (case ask_starting_gate min_gate stdin of
           Inl err \<Rightarrow> Inl err
         | Inr (start_gate_str, rest) \<Rightarrow>
             (case map_of gates start_gate_str of
                None \<Rightarrow> Inl (KeyError start_gate_str)
              | Some num_gate_of_min \<Rightarrow>
                  Inr (([start_gate_str],
                        map fst (filter (\<lambda>(gate, number). number < num_gate_of_min) gates)),
                       rest)))"
proof -
  from min_gate_first [OF assms]
  have "find (\<lambda>g. length (str_split ''/'' g) = Max (lengths_checked - redundant_lengths)) gate_order
          = Some (find_min_gate gates (Max (lengths_checked - redundant_lengths)) '''')" .
  moreover have "check_starting_gate gates stdin =
        (case ask_starting_gate (find_min_gate gates (Max (lengths_checked - redundant_lengths)) '''') stdin of
           Inl err \<Rightarrow> Inl err
         | Inr (start_gate_str, rest) \<Rightarrow>
             (case map_of gates start_gate_str of
                None \<Rightarrow> Inl (KeyError start_gate_str)
              | Some num_gate_of_min \<Rightarrow>
                  Inr (([start_gate_str],
                        map fst (filter (\<lambda>(gate, number). number < num_gate_of_min) gates)),
                       rest)))"
    using assms(2,3) by (simp add: check_starting_gate_def Let_def)
  ultimately show ?thesis by blast
qed

theorem candidate_anchor_first_witness:
  "read_gates [''A | Freq. of Parent (%)'', ''A/B | Freq. of Parent (%)'',
               ''A/B | Freq. of Parent (%)''] [] []
     = Inr ([''A'', ''A/B'', ''A/B''], [(''A'', 1), (''A/B'', 2)])
   \<and> scan_lengths (map snd [(''A'', 1), (''A/B'', 2)]) {} {} = (True, {1, 2}, {})
   \<and> length (filter (\<lambda>g. length (str_split ''/'' g) = 2) [''A'', ''A/B'', ''A/B'']) = 2
   \<and> find_min_gate [(''A'', 1), (''A/B'', 2)] 2 '''' = ''A/B''
   \<and> find (\<lambda>g. length (str_split ''/'' g) = 2) [''A'', ''A/B'', ''A/B''] = Some ''A/B''"
proof -
  have read: "read_gates [''A | Freq. of Parent (%)'', ''A/B | Freq. of Parent (%)'',
               ''A/B | Freq. of Parent (%)''] [] []
     = Inr ([''A'', ''A/B'', ''A/B''], [(''A'', 1), (''A/B'', 2)])"
    by simp
  have scan: "scan_lengths (map snd [(''A'', 1::nat), (''A/B'', 2)]) {} {} = (True, {1, 2}, {})"
    by (simp add: insert_commute)
  have ne: "{1, 2::nat} - {} \<noteq> {}" by simp
  have mx: "Max ({1, 2::nat} - {}) = 2" by simp
  from candidate_anchor_first [OF read scan ne, of "[]"] read scan show ?thesis
    unfolding mx by auto
qed

lemma scan_single_root:
  assumes "length (filter (\<lambda>g. snd g = 1) gates) \<le> 1"
  shows "\<exists>C R. scan_lengths (map snd gates) {} {} = (True, C, R) \<and>
           C - R = {d. length (filter (\<lambda>g. snd g = d) gates) = 1}"
proof -
  obtain b C R where scan: "scan_lengths (map snd gates) {} {} = (b, C, R)"
    by (cases "scan_lengths (map snd gates) {} {}")
  have "fst (scan_lengths (map snd gates) {} {})"
    unfolding scan_lengths_fst using assms by (simp only: count_snd) simp
  with scan have b: "b = True" by simp
  have "C - R = {d. length (filter (\<lambda>x. x = d) (map snd gates)) = 1}"
    using scan unfolding b by (rule scan_lengths_unique(1))
  then have "C - R = {d. length (filter (\<lambda>g. snd g = d) gates) = 1}"
    by (simp only: count_snd)
  with scan b show ?thesis by blast
qed

lemma single_root_result:
  assumes read: "read_gates headers [] [] = Inr (gate_order, gates)"
    and single: "length (filter (\<lambda>g. snd g = 1) gates) \<le> 1"
    and U: "U = {d. length (filter (\<lambda>g. snd g = d) gates) = 1}"
    and ne: "U \<noteq> {}"
    and anchor: "find (\<lambda>g. length (str_split ''/'' g) = Max U) gate_order = Some min_gate"
    and ask: "ask_level (length (str_split ''/'' min_gate)) stdin = Inr (k, rest)"
    and start: "join ''/'' (take k (str_split ''/'' min_gate)) \<in> set gate_order"
  shows "check_starting_gate gates stdin =
           Inr (([join ''/'' (take k (str_split ''/'' min_gate))],
                 filter (\<lambda>g. length (str_split ''/'' g) < k) (map fst gates)), rest)"
proof -
  let ?start = "join ''/'' (take k (str_split ''/'' min_gate))"
  from scan_single_root [OF single] obtain C R
    where scan: "scan_lengths (map snd gates) {} {} = (True, C, R)" and CR: "C - R = U"
    unfolding U by blast
  from ne CR have ne': "C - R \<noteq> {}" by simp
  from min_gate_first [OF read scan ne'] anchor
  have min: "find_min_gate gates (Max (C - R)) '''' = min_gate"
    unfolding CR by simp
  from ask have asked: "ask_starting_gate min_gate stdin = Inr (?start, rest)"
    by (simp add: ask_starting_gate_def)
  from ask_level_range [OF ask] have k: "0 < k" "k \<le> length (str_split ''/'' min_gate)"
    by simp_all
  have "map_of gates ?start = Some (length (str_split ''/'' ?start))"
    using start by (rule read_gates_dict(4) [OF read])
  also have "length (str_split ''/'' ?start) = k"
    using k by (rule depth_join_take)
  finally have num: "map_of gates ?start = Some k" .
  have vals: "\<forall>(g, n) \<in> set gates. n = length (str_split ''/'' g)"
    using read_gates_dict(2) [OF read] by blast
  have "check_starting_gate gates stdin =
      Inr (([?start], map fst (filter (\<lambda>(gate, number). number < k) gates)), rest)"
    unfolding check_starting_gate_def scan using ne' min asked num
    by (simp add: Let_def)
  then show ?thesis
    unfolding ignore_list_depth [OF vals] .
qed

lemma single_root_empty:
  assumes single: "length (filter (\<lambda>g. snd g = 1) gates) \<le> 1"
    and U: "{d. length (filter (\<lambda>g. snd g = d) gates) = 1} = {}"
  shows "check_starting_gate gates stdin = Inl (ValueError MaxEmpty)"
proof -
  from scan_single_root [OF single] obtain C R
    where scan: "scan_lengths (map snd gates) {} {} = (True, C, R)" and CR: "C - R = {}"
    unfolding U by blast
  show ?thesis unfolding check_starting_gate_def scan using CR by simp
qed

lemma single_root_missing:
  assumes read: "read_gates headers [] [] = Inr (gate_order, gates)"
    and single: "length (filter (\<lambda>g. snd g = 1) gates) \<le> 1"
    and U: "U = {d. length (filter (\<lambda>g. snd g = d) gates) = 1}"
    and ne: "U \<noteq> {}"
    and anchor: "find (\<lambda>g. length (str_split ''/'' g) = Max U) gate_order = Some min_gate"
    and ask: "ask_level (length (str_split ''/'' min_gate)) stdin = Inr (k, rest)"
    and start: "join ''/'' (take k (str_split ''/'' min_gate)) \<notin> set gate_order"
  shows "check_starting_gate gates stdin =
           Inl (KeyError (join ''/'' (take k (str_split ''/'' min_gate))))"
proof -
  let ?start = "join ''/'' (take k (str_split ''/'' min_gate))"
  from scan_single_root [OF single] obtain C R
    where scan: "scan_lengths (map snd gates) {} {} = (True, C, R)" and CR: "C - R = U"
    unfolding U by blast
  from ne CR have ne': "C - R \<noteq> {}" by simp
  from min_gate_first [OF read scan ne'] anchor
  have min: "find_min_gate gates (Max (C - R)) '''' = min_gate"
    unfolding CR by simp
  from ask have asked: "ask_starting_gate min_gate stdin = Inr (?start, rest)"
    by (simp add: ask_starting_gate_def)
  have "?start \<notin> fst ` set gates" using start read_gates_dict(1) [OF read] by simp
  then have num: "map_of gates ?start = None" by (simp add: map_of_eq_None_iff)
  show ?thesis
    unfolding check_starting_gate_def scan using ne' min asked num
    by (simp add: Let_def)
qed

text \<open>
  C3, as stated, at concrete inputs: for the single gate \<^verbatim>\<open>X/Y\<close> and the answer 1 the start
  would be \<^verbatim>\<open>X\<close>, which the dict does not hold, and \<open>gates[start_gate_str]\<close> raises
  KeyError; for the gates \<^verbatim>\<open>A/B\<close> and \<^verbatim>\<open>C/D\<close>, and for no gate at all, no length is seen
  exactly once and \<open>max\<close> raises ValueError.
\<close>

theorem check_starting_gate_single_root_counterexample:
  "read_gates [''X/Y | Freq. of Parent (%)''] [] [] = Inr ([''X/Y''], [(''X/Y'', 2)]) \<and>
   check_starting_gate [(''X/Y'', 2)] [''1''] = Inl (KeyError ''X'') \<and>
   read_gates [''A/B | Freq. of Parent (%)'', ''C/D | Freq. of Parent (%)''] [] []
     = Inr ([''A/B'', ''C/D''], [(''A/B'', 2), (''C/D'', 2)]) \<and>
   check_starting_gate [(''A/B'', 2), (''C/D'', 2)] [''1''] = Inl (ValueError MaxEmpty) \<and>
   check_starting_gate [] [''1''] = Inl (ValueError MaxEmpty)"
  by (simp add: check_starting_gate_def ask_starting_gate_def py_int_def yes_no_def lower_def
      lower_char_def int_body_def strip_space_def is_space_def is_digit_def nat_of_digits_def
      digit_val_def)

text \<open>
  C3, amended. For the gates of a header row with the number 1 at most once, let \<open>U\<close> be
  the numbers the dict holds exactly once. When \<open>U\<close> is empty, \<open>check_starting_gate\<close>
  raises the ValueError of \<open>max\<close>. Otherwise the gate shown is the first gate with
  \<open>Max U\<close> segments, and for the level \<open>k\<close> read from standard input, between 1 and its
  number of segments, the start is its first \<open>k\<close> segments: when the start is a gate of the
  header row, \<open>check_starting_gate\<close> returns it with the ignore list of every gate of the
  dict with fewer than \<open>k\<close> segments; when it is not, \<open>check_starting_gate\<close> raises KeyError.
  For \<^verbatim>\<open>Singlets\<close>, \<^verbatim>\<open>Singlets/Live\<close>, \<^verbatim>\<open>Singlets/Live/CD3+\<close> and the answer 2 the start is
  \<^verbatim>\<open>Singlets/Live\<close>, \<^verbatim>\<open>Singlets\<close> is ignored, and \<open>find_parent_gate\<close> gives
  \<^verbatim>\<open>Singlets/Live/CD3+\<close> the index of \<^verbatim>\<open>Singlets/Live\<close>.
\<close>

theorem check_starting_gate_single_root:
  "(read_gates headers [] [] = Inr (gate_order, gates) \<and>
    length (filter (\<lambda>g. snd g = 1) gates) \<le> 1 \<and>
    U = {d. length (filter (\<lambda>g. snd g = d) gates) = 1} \<longrightarrow>
      (U = {} \<longrightarrow> check_starting_gate gates stdin = Inl (ValueError MaxEmpty)) \<and>
      (U \<noteq> {} \<and>
       find (\<lambda>g. length (str_split ''/'' g) = Max U) gate_order = Some min_gate \<and>
       ask_level (length (str_split ''/'' min_gate)) stdin = Inr (k, rest) \<longrightarrow>
         0 < k \<and> k \<le> length (str_split ''/'' min_gate) \<and>
         (join ''/'' (take k (str_split ''/'' min_gate)) \<in> set gate_order \<longrightarrow>
            check_starting_gate gates stdin =
              Inr (([join ''/'' (take k (str_split ''/'' min_gate))],
                    filter (\<lambda>g. length (str_split ''/'' g) < k) (map fst gates)), rest)) \<and>
         (join ''/'' (take k (str_split ''/'' min_gate)) \<notin> set gate_order \<longrightarrow>
            check_starting_gate gates stdin =
              Inl (KeyError (join ''/'' (take k (str_split ''/'' min_gate)))))))
   \<and> read_gates [''Singlets | Freq. of Parent (%)'', ''Singlets/Live | Freq. of Parent (%)'',
                  ''Singlets/Live/CD3+ | Freq. of Parent (%)''] [] []
        = Inr ([''Singlets'', ''Singlets/Live'', ''Singlets/Live/CD3+''],
               [(''Singlets'', 1), (''Singlets/Live'', 2), (''Singlets/Live/CD3+'', 3)])
   \<and> check_starting_gate
          [(''Singlets'', 1), (''Singlets/Live'', 2), (''Singlets/Live/CD3+'', 3)] [''2'']
        = Inr (([''Singlets/Live''], [''Singlets'']), [])
   \<and> find_parent_gate [''Singlets/Live'']
          [''Singlets'', ''Singlets/Live'', ''Singlets/Live/CD3+''] [''Singlets'']
        = Inr [Ignore, Start, Parent 1]
   \<and> [''Singlets'', ''Singlets/Live'', ''Singlets/Live/CD3+''] ! 1 = ''Singlets/Live''"
proof (intro conjI impI)
  assume h: "read_gates headers [] [] = Inr (gate_order, gates) \<and>
    length (filter (\<lambda>g. snd g = 1) gates) \<le> 1 \<and>
    U = {d. length (filter (\<lambda>g. snd g = d) gates) = 1}"
  {
    assume "U = {}"
    with h show "check_starting_gate gates stdin = Inl (ValueError MaxEmpty)"
      by (intro single_root_empty) simp_all
  }
  assume a: "U \<noteq> {} \<and>
       find (\<lambda>g. length (str_split ''/'' g) = Max U) gate_order = Some min_gate \<and>
       ask_level (length (str_split ''/'' min_gate)) stdin = Inr (k, rest)"
  then have ask: "ask_level (length (str_split ''/'' min_gate)) stdin = Inr (k, rest)"
    by simp
  from ask_level_range [OF ask] show "0 < k" and "k \<le> length (str_split ''/'' min_gate)"
    by simp_all
  {
    assume "join ''/'' (take k (str_split ''/'' min_gate)) \<in> set gate_order"
    with h a show "check_starting_gate gates stdin =
              Inr (([join ''/'' (take k (str_split ''/'' min_gate))],
                    filter (\<lambda>g. length (str_split ''/'' g) < k) (map fst gates)), rest)"
      by (intro single_root_result [of headers gate_order gates U]) simp_all
  }
  {
    assume "join ''/'' (take k (str_split ''/'' min_gate)) \<notin> set gate_order"
    with h a show "check_starting_gate gates stdin =
              Inl (KeyError (join ''/'' (take k (str_split ''/'' min_gate))))"
      by (intro single_root_missing [of headers gate_order gates U]) simp_all
  }
next
  show "read_gates [''Singlets | Freq. of Parent (%)'', ''Singlets/Live | Freq. of Parent (%)'',
                  ''Singlets/Live/CD3+ | Freq. of Parent (%)''] [] []
        = Inr ([''Singlets'', ''Singlets/Live'', ''Singlets/Live/CD3+''],
               [(''Singlets'', 1), (''Singlets/Live'', 2), (''Singlets/Live/CD3+'', 3)])"
    by simp
next
  show "check_starting_gate
          [(''Singlets'', 1), (''Singlets/Live'', 2), (''Singlets/Live/CD3+'', 3)] [''2'']
        = Inr (([''Singlets/Live''], [''Singlets'']), [])"
    by (simp add: check_starting_gate_def ask_starting_gate_def py_int_def yes_no_def lower_def
      lower_char_def int_body_def strip_space_def is_space_def is_digit_def nat_of_digits_def
      digit_val_def)
next
  show "find_parent_gate [''Singlets/Live'']
          [''Singlets'', ''Singlets/Live'', ''Singlets/Live/CD3+''] [''Singlets'']
        = Inr [Ignore, Start, Parent 1]"
    by (simp add: find_parent_gate_def parent_entry_def rsplit1_def)
next
  show "[''Singlets'', ''Singlets/Live'', ''Singlets/Live/CD3+''] ! 1 = ''Singlets/Live''"
    by simp
qed

theorem check_starting_gate_single_root_witness:
  "check_starting_gate
      [(''Singlets'', 1), (''Singlets/Live'', 2), (''Singlets/Live/CD3+'', 3)] [''two'', ''y'', ''2'']
     = Inr (([''Singlets/Live''], [''Singlets'']), [])
   \<and> check_starting_gate [(''X/Y'', 2)] [''1''] = Inl (KeyError ''X'')"
proof -
  let ?hs = "[''Singlets | Freq. of Parent (%)'', ''Singlets/Live | Freq. of Parent (%)'',
              ''Singlets/Live/CD3+ | Freq. of Parent (%)'']"
  let ?go = "[''Singlets'', ''Singlets/Live'', ''Singlets/Live/CD3+'']"
  let ?g = "[(''Singlets'', 1::nat), (''Singlets/Live'', 2), (''Singlets/Live/CD3+'', 3)]"
  let ?U = "{d. length (filter (\<lambda>g. snd g = d) ?g) = 1}"
  have U: "?U = {1, 2, 3}" by (auto split: if_splits)
  have mx: "Max ?U = 3" unfolding U by simp
  have h: "read_gates ?hs [] [] = Inr (?go, ?g) \<and>
      length (filter (\<lambda>g. snd g = 1) ?g) \<le> 1 \<and> ?U = ?U"
    by simp
  have ne: "?U \<noteq> {}" unfolding U by simp
  have anchor: "find (\<lambda>g. length (str_split ''/'' g) = Max ?U) ?go = Some ''Singlets/Live/CD3+''"
    unfolding mx by simp
  have ask: "ask_level (length (str_split ''/'' ''Singlets/Live/CD3+'')) [''two'', ''y'', ''2'']
      = Inr (2, [])"
    by (simp add: py_int_def yes_no_def lower_def lower_char_def int_body_def strip_space_def
        is_space_def is_digit_def nat_of_digits_def digit_val_def)
  have start: "join ''/'' (take 2 (str_split ''/'' ''Singlets/Live/CD3+'')) \<in> set ?go"
    by simp
  from check_starting_gate_single_root
    [of ?hs ?go ?g ?U "[''two'', ''y'', ''2'']" "''Singlets/Live/CD3+''" 2 "[]"]
    h ne anchor ask start
  have a: "check_starting_gate ?g [''two'', ''y'', ''2''] =
      Inr (([join ''/'' (take 2 (str_split ''/'' ''Singlets/Live/CD3+''))],
            filter (\<lambda>g. length (str_split ''/'' g) < 2) (map fst ?g)), [])"
    by blast
  let ?V = "{d. length (filter (\<lambda>g. snd g = d) [(''X/Y'', 2::nat)]) = 1}"
  have V: "?V = {2}" by (auto split: if_splits)
  have mv: "Max ?V = 2" unfolding V by simp
  have h': "read_gates [''X/Y | Freq. of Parent (%)''] [] [] = Inr ([''X/Y''], [(''X/Y'', 2)]) \<and>
      length (filter (\<lambda>g. snd g = 1) [(''X/Y'', 2::nat)]) \<le> 1 \<and> ?V = ?V"
    by simp
  have ne': "?V \<noteq> {}" unfolding V by simp
  have anchor': "find (\<lambda>g. length (str_split ''/'' g) = Max ?V) [''X/Y''] = Some ''X/Y''"
    unfolding mv by simp
  have ask': "ask_level (length (str_split ''/'' ''X/Y'')) [''1''] = Inr (1, [])"
    by (simp add: py_int_def yes_no_def lower_def lower_char_def int_body_def strip_space_def
        is_space_def is_digit_def nat_of_digits_def digit_val_def)
  have start': "join ''/'' (take 1 (str_split ''/'' ''X/Y'')) \<notin> set [''X/Y'']"
    by simp
  from check_starting_gate_single_root
    [of "[''X/Y | Freq. of Parent (%)'']" "[''X/Y'']" "[(''X/Y'', 2)]" ?V "[''1'']" "''X/Y''" 1 "[]"]
    h' ne' anchor' ask' start'
  have b: "check_starting_gate [(''X/Y'', 2)] [''1''] =
      Inl (KeyError (join ''/'' (take 1 (str_split ''/'' ''X/Y''))))"
    by blast
  from a b show ?thesis by simp
qed

section \<open>Evaluation of concrete runs\<close>

lemmas dec_eval = Decimal_def parse_sign_def parse_number_def parse_exp_def strip_space_def
  is_space_def is_digit_def nat_of_digits_def digit_val_def lower_def lower_char_def
  div_100_def dec_fix_def ndigits.simps strip_zeros.simps prec_def Etop_def Etiny_def
  Emax_def Emin_def Let_def

lemmas ask_eval = check_starting_gate_def ask_starting_gate_def py_int_def yes_no_def
  int_body_def

section \<open>process_csv\<close>

lemma read_gates_order:
  "read_gates hs go gd = Inr (go', gd') \<Longrightarrow>
     go' = go @ map (\<lambda>h. hd (str_split '' | '' h)) hs"
proof (induction hs arbitrary: go gd)
  case Nil
  then show ?case by simp
next
  case (Cons h hs)
  from Cons.prems obtain a b where ab: "str_split '' | '' h = [a, b]"
    and rest: "read_gates hs (go @ [a]) (AList.update a (length (str_split ''/'' a)) gd) = Inr (go', gd')"
    by (auto split: if_splits list.splits)
  from Cons.IH [OF rest] ab show ?case by simp
qed

lemma read_gates_fail:
  "\<exists>h \<in> set hs. \<not> contains '' | '' h \<Longrightarrow>
     read_gates hs go gd = Inl SystemExit \<or> read_gates hs go gd = Inl (ValueError TooManyValues)"
proof (induction hs arbitrary: go gd)
  case Nil
  then show ?case by simp
next
  case (Cons h hs)
  show ?case
  proof (cases "contains '' | '' h")
    case False
    then show ?thesis by simp
  next
    case True
    with Cons.prems have ex: "\<exists>h \<in> set hs. \<not> contains '' | '' h" by auto
    show ?thesis
    proof (cases "\<exists>a b. str_split '' | '' h = [a, b]")
      case True
      then obtain a b where "str_split '' | '' h = [a, b]" by blast
      with \<open>contains '' | '' h\<close> Cons.IH [OF ex] show ?thesis by simp
    next
      case False
      with \<open>contains '' | '' h\<close> show ?thesis
        by (auto split: list.splits)
    qed
  qed
qed

lemma read_gates_exit:
  "\<forall>h \<in> set hs. contains '' | '' h \<longrightarrow> length (str_split '' | '' h) = 2 \<Longrightarrow>
   \<exists>h \<in> set hs. \<not> contains '' | '' h \<Longrightarrow>
     read_gates hs go gd = Inl SystemExit"
proof (induction hs arbitrary: go gd)
  case Nil
  then show ?case by simp
next
  case (Cons h hs)
  show ?case
  proof (cases "contains '' | '' h")
    case False
    then show ?thesis by simp
  next
    case True
    with Cons.prems have ex: "\<exists>h \<in> set hs. \<not> contains '' | '' h" by auto
    from Cons.prems(1) have all: "\<forall>h \<in> set hs. contains '' | '' h \<longrightarrow> length (str_split '' | '' h) = 2"
      by simp
    from True Cons.prems(1) have "length (str_split '' | '' h) = 2" by simp
    then obtain a b where "str_split '' | '' h = [a, b]"
      by (cases "str_split '' | '' h"; cases "tl (str_split '' | '' h)") auto
    with True Cons.IH [OF all ex] show ?thesis by simp
  qed
qed

text \<open>
  C9, as stated, at a concrete input: the header cell \<^verbatim>\<open> | Freq. of Parent (%)\<close> has an
  empty path before \<^verbatim>\<open>" | "\<close>; \<open>process_csv\<close> does not fail on it and stores the empty gate
  with one segment.
\<close>

theorem process_csv_empty_path_counterexample:
  "process_csv [[''Sample'', '' | Freq. of Parent (%)'', '''']] []
     = Inr (([''''], [('''', 1)], []), [])"
  by (simp add: process_csv_def)

text \<open>
  C9, amended. The first loop of \<open>process_csv\<close> stores every gate (the header cell before
  \<^verbatim>\<open>" | "\<close>) with its number of \<^verbatim>\<open>"/"\<close>-separated segments, one more than its number of
  slashes. When a header cell has no \<^verbatim>\<open>" | "\<close>, as an empty cell has none, \<open>process_csv\<close>
  fails before it reads a row, and so does the run: with \<open>sys.exit(0)\<close> when no cell before
  it has \<^verbatim>\<open>" | "\<close> twice, and in any case with that or the ValueError of the unpacking. A
  cell whose part before \<^verbatim>\<open>" | "\<close> is empty is not refused.
\<close>

theorem process_csv_header:
  "(read_gates headers [] [] = Inr (gate_order, gates_dict) \<longrightarrow>
      gate_order = map (\<lambda>h. hd (str_split '' | '' h)) headers \<and>
      (\<forall>g \<in> set gate_order.
         map_of gates_dict g = Some (length (str_split ''/'' g)) \<and>
         length (str_split ''/'' g) = Suc (length (filter (\<lambda>c. c = CHR ''/'') g))))
   \<and> ((\<exists>h \<in> set (butlast (tl header)). \<not> contains '' | '' h) \<longrightarrow>
        (process_csv (header # rows) stdin = Inl SystemExit \<or>
         process_csv (header # rows) stdin = Inl (ValueError TooManyValues)) \<and>
        (main_core (header # rows) stdin = Inl SystemExit \<or>
         main_core (header # rows) stdin = Inl (ValueError TooManyValues)) \<and>
        ((\<forall>h \<in> set (butlast (tl header)).
            contains '' | '' h \<longrightarrow> length (str_split '' | '' h) = 2) \<longrightarrow>
         process_csv (header # rows) stdin = Inl SystemExit \<and>
         main_core (header # rows) stdin = Inl SystemExit))
   \<and> \<not> contains '' | '' ''''"
proof (intro conjI impI ballI)
  assume read: "read_gates headers [] [] = Inr (gate_order, gates_dict)"
  from read_gates_order [OF read]
  show "gate_order = map (\<lambda>h. hd (str_split '' | '' h)) headers" by simp
  fix g assume "g \<in> set gate_order"
  then show "map_of gates_dict g = Some (length (str_split ''/'' g))"
    by (rule read_gates_dict(4) [OF read])
  show "length (str_split ''/'' g) = Suc (length (filter (\<lambda>c. c = CHR ''/'') g))"
    by (rule length_str_split)
next
  assume bad: "\<exists>h \<in> set (butlast (tl header)). \<not> contains '' | '' h"
  from read_gates_fail [OF bad, of "[]" "[]"]
  show fail: "process_csv (header # rows) stdin = Inl SystemExit \<or>
         process_csv (header # rows) stdin = Inl (ValueError TooManyValues)"
    by (auto simp: process_csv_def)
  then show "main_core (header # rows) stdin = Inl SystemExit \<or>
         main_core (header # rows) stdin = Inl (ValueError TooManyValues)"
    by (auto simp: main_core_def)
  assume "\<forall>h \<in> set (butlast (tl header)).
            contains '' | '' h \<longrightarrow> length (str_split '' | '' h) = 2"
  from read_gates_exit [OF this bad, of "[]" "[]"]
  show exit: "process_csv (header # rows) stdin = Inl SystemExit"
    by (simp add: process_csv_def)
  then show "main_core (header # rows) stdin = Inl SystemExit"
    by (simp add: main_core_def)
next
  show "\<not> contains '' | '' ''''" by simp
qed

theorem process_csv_header_witness:
  "read_gates [''A | Freq. of Parent (%)'', ''A/B/C | Freq. of Parent (%)''] [] []
     = Inr ([''A'', ''A/B/C''], [(''A'', 1), (''A/B/C'', 3)])
   \<and> map_of [(''A'', 1), (''A/B/C'', 3)] ''A/B/C'' = Some (Suc (length (filter (\<lambda>c. c = CHR ''/'') ''A/B/C'')))
   \<and> process_csv [[''Sample'', ''A | Freq. of Parent (%)'', '''', ''''], [''T1.fcs'', ''50'', '''', '''']] [''10'']
     = Inl SystemExit
   \<and> main_core [[''Sample'', ''A | Freq. of Parent (%)'', '''', ''''], [''T1.fcs'', ''50'', '''', '''']] [''10'']
     = Inl SystemExit"
proof -
  let ?hs = "[''A | Freq. of Parent (%)'', ''A/B/C | Freq. of Parent (%)'']"
  let ?header = "[''Sample'', ''A | Freq. of Parent (%)'', '''', '''']"
  let ?rows = "[[''T1.fcs'', ''50'', '''', '''']]"
  have read: "read_gates ?hs [] [] = Inr ([''A'', ''A/B/C''], [(''A'', 1), (''A/B/C'', 3)])"
    by simp
  have bad: "\<exists>h \<in> set (butlast (tl ?header)). \<not> contains '' | '' h" by simp
  have two: "\<forall>h \<in> set (butlast (tl ?header)).
      contains '' | '' h \<longrightarrow> length (str_split '' | '' h) = 2"
    by simp
  from process_csv_header [of ?hs "[''A'', ''A/B/C'']" "[(''A'', 1), (''A/B/C'', 3)]" ?header ?rows "[''10'']"]
    read bad two
  have a: "\<forall>g \<in> set [''A'', ''A/B/C''].
         map_of [(''A'', 1), (''A/B/C'', 3)] g = Some (length (str_split ''/'' g)) \<and>
         length (str_split ''/'' g) = Suc (length (filter (\<lambda>c. c = CHR ''/'') g))"
    and b: "process_csv (?header # ?rows) [''10''] = Inl SystemExit"
    and c: "main_core (?header # ?rows) [''10''] = Inl SystemExit"
    by blast+
  from a have "map_of [(''A'', 1), (''A/B/C'', 3)] ''A/B/C''
      = Some (Suc (length (filter (\<lambda>c. c = CHR ''/'') ''A/B/C'')))"
    by simp
  with read b c show ?thesis by simp
qed

text \<open>
  C7 on the code. A row whose first cell is \<^verbatim>\<open>Mean\<close> or \<^verbatim>\<open>SD\<close> is skipped, and the name of
  any other tube is \<open>line[0].strip(".fcs")\<close>; but \<open>strip\<close> takes a set of characters and
  both ends: the tube of \<^verbatim>\<open>sample.fcs\<close> is named \<^verbatim>\<open>ample\<close>, the tube of \<^verbatim>\<open>cells\<close> is named
  \<^verbatim>\<open>ell\<close>, and the row of \<^verbatim>\<open>SD.fcs\<close> is skipped.
\<close>

theorem process_csv_strip_fcs:
  "read_tubes ((''Mean'' # cells) # rest) tube_list stdin = read_tubes rest tube_list stdin \<and>
   read_tubes ((''SD'' # cells) # rest) tube_list stdin = read_tubes rest tube_list stdin \<and>
   strip ''.fcs'' ''sample.fcs'' = ''ample'' \<and>
   process_csv [[''Sample'', ''A | Freq. of Parent (%)'', ''''],
                [''sample.fcs'', ''80'', ''''],
                [''cells'', ''50'', ''''],
                [''SD.fcs'', ''1'', '''']] [''10'', ''20'']
     = Inr (([''A''], [(''A'', 1)],
             [\<lparr>tube_name = ''ample'', raw_percent = [''80''], group_id = '''',
                cell_conc = Finite False 10 0, percent_list = [Finite False 8 (- 1)],
                count_list = []\<rparr>,
              \<lparr>tube_name = ''ell'', raw_percent = [''50''], group_id = '''',
                cell_conc = Finite False 20 0, percent_list = [Finite False 5 (- 1)],
                count_list = []\<rparr>]), [])"
proof (intro conjI)
  show "read_tubes ((''Mean'' # cells) # rest) tube_list stdin = read_tubes rest tube_list stdin"
    by (simp add: strip_def)
  show "read_tubes ((''SD'' # cells) # rest) tube_list stdin = read_tubes rest tube_list stdin"
    by (simp add: strip_def)
  show "strip ''.fcs'' ''sample.fcs'' = ''ample''"
    by (simp add: strip_def)
  show "process_csv [[''Sample'', ''A | Freq. of Parent (%)'', ''''],
                [''sample.fcs'', ''80'', ''''],
                [''cells'', ''50'', ''''],
                [''SD.fcs'', ''1'', '''']] [''10'', ''20'']
     = Inr (([''A''], [(''A'', 1)],
             [\<lparr>tube_name = ''ample'', raw_percent = [''80''], group_id = '''',
                cell_conc = Finite False 10 0, percent_list = [Finite False 8 (- 1)],
                count_list = []\<rparr>,
              \<lparr>tube_name = ''ell'', raw_percent = [''50''], group_id = '''',
                cell_conc = Finite False 20 0, percent_list = [Finite False 5 (- 1)],
                count_list = []\<rparr>]), [])"
    by (simp add: process_csv_def TubeData_init_def strip_def dec_eval)
qed

section \<open>Exact decimal results\<close>

lemma ndigits_le: "0 < k \<Longrightarrow> n < 10 ^ k \<Longrightarrow> ndigits n \<le> k"
proof (induction k arbitrary: n)
  case 0
  then show ?case by simp
next
  case (Suc k)
  show ?case
  proof (cases "n < 10")
    case True
    then show ?thesis by (simp add: ndigits.simps)
  next
    case False
    with Suc.prems(2) have k: "0 < k" by (cases k) auto
    from Suc.prems(2) have "n div 10 < 10 ^ k" by (simp add: less_mult_imp_div_less mult.commute)
    from Suc.IH [OF k this] False show ?thesis by (simp add: ndigits.simps [of n])
  qed
qed

lemma ndigits_pos: "0 < ndigits n"
  by (simp add: ndigits.simps [of n])

lemma dec_fix_exact:
  assumes "ndigits c \<le> prec" "Etiny \<le> e" "e \<le> Etop"
  shows "dec_fix s c e = Inr (Finite s c e)"
proof (cases "c = 0")
  case True
  with assms(2,3) show ?thesis
    by (simp add: dec_fix_def Etop_def Etiny_def Emax_def Emin_def prec_def)
next
  case False
  have "int (ndigits c) + e - int prec \<le> e" using assms(1) by simp
  with False assms(2,3) show ?thesis
    by (simp add: dec_fix_def Let_def)
qed

lemma dec_value_mult:
  "dec_value (s \<noteq> t) (c * d) (e + f) = dec_value s c e * dec_value t d f"
  by (simp add: dec_value_def power_int_add)

lemma strip_zeros_result:
  "strip_zeros c x ideal = (c', x') \<Longrightarrow> x \<le> ideal \<Longrightarrow>
     x \<le> x' \<and> x' \<le> ideal \<and> c = c' * 10 ^ nat (x' - x)"
proof (induction c x ideal rule: strip_zeros.induct)
  case (1 coeff expo ideal_exp)
  show ?case
  proof (cases "expo < ideal_exp \<and> coeff mod 10 = 0")
    case False
    with "1.prems" show ?thesis by (simp add: strip_zeros.simps [of coeff expo])
  next
    case True
    with "1.prems" have rec: "strip_zeros (coeff div 10) (expo + 1) ideal_exp = (c', x')"
      by (simp add: strip_zeros.simps [of coeff expo])
    from True have le: "expo + 1 \<le> ideal_exp" by simp
    from "1.IH" [OF True rec le]
    have a: "expo + 1 \<le> x'" and b: "x' \<le> ideal_exp"
      and c: "coeff div 10 = c' * 10 ^ nat (x' - (expo + 1))"
      by simp_all
    from a have "nat (x' - expo) = Suc (nat (x' - (expo + 1)))" by simp
    moreover from True have "coeff = coeff div 10 * 10" by presburger
    ultimately have "coeff = c' * 10 ^ nat (x' - expo)" using c by simp
    with a b show ?thesis by simp
  qed
qed

lemma strip_zeros_pow:
  "x + int j \<le> ideal \<Longrightarrow> strip_zeros (c * 10 ^ j) x ideal = strip_zeros c (x + int j) ideal"
proof (induction j arbitrary: x)
  case 0
  then show ?case by simp
next
  case (Suc j)
  from Suc.prems have lt: "x < ideal" and le: "(x + 1) + int j \<le> ideal" by simp_all
  have "strip_zeros (c * 10 ^ Suc j) x ideal = strip_zeros (c * 10 ^ Suc j div 10) (x + 1) ideal"
    using lt by (subst strip_zeros.simps) simp
  also have "c * 10 ^ Suc j div 10 = c * 10 ^ j" by simp
  also have "strip_zeros (c * 10 ^ j) (x + 1) ideal = strip_zeros c ((x + 1) + int j) ideal"
    using le by (rule Suc.IH)
  finally show ?case by (simp add: ac_simps)
qed

lemma dec_value_scale: "dec_value s (c' * 10 ^ n) x = dec_value s c' (x + int n)"
  by (simp add: dec_value_def power_int_add power_int_nonneg_exp)

lemma div_100_exact:
  assumes c: "c < 10 ^ 28" and lo: "Etiny + 2 \<le> e" and hi: "e \<le> Etop"
  shows "\<exists>c' e'. div_100 (Finite s c e) = Inr (Finite s c' e') \<and>
           dec_value s c' e' = dec_value s c e / 100"
proof (cases "c = 0")
  case True
  have "dec_fix s 0 e = Inr (Finite s 0 e)"
    using lo hi by (intro dec_fix_exact) (simp_all add: ndigits.simps prec_def)
  with True show ?thesis by (simp add: div_100_def dec_value_def)
next
  case False
  define k where "k = ndigits c"
  have k: "0 < k" "k \<le> 28"
    using ndigits_pos [of c] ndigits_le [OF _ c] by (simp_all add: k_def)
  define m where "m = 30 - k"
  have shift: "3 - int (ndigits c) + int prec + 1 = 2 + int m"
    using k by (simp add: m_def prec_def k_def)
  have n2: "nat (2 + int m) = m + 2" by simp
  have pow: "c * 10 ^ Suc (Suc m) = (c * 10 ^ m) * 100" by simp
  have quot: "c * 10 ^ Suc (Suc m) div 100 = c * 10 ^ m" unfolding pow by simp
  have rem: "c * 10 ^ Suc (Suc m) mod 100 = 0" unfolding pow by simp
  obtain c' x' where sz: "strip_zeros c (e - 2) e = (c', x')"
    by (cases "strip_zeros c (e - 2) e")
  have "strip_zeros (c * 10 ^ m) (e - (2 + int m)) e = strip_zeros c ((e - (2 + int m)) + int m) e"
    by (rule strip_zeros_pow) simp
  then have sz': "strip_zeros (c * 10 ^ m) (e - (2 + int m)) e = (c', x')"
    using sz by simp
  from strip_zeros_result [OF sz] have x': "e - 2 \<le> x'" "x' \<le> e"
    and cc: "c = c' * 10 ^ nat (x' - (e - 2))"
    by simp_all
  from cc have "c' \<le> c" by (metis One_nat_def Suc_leI mult.right_neutral mult_le_mono2 zero_less_numeral zero_less_power)
  with c have "c' < 10 ^ 28" by simp
  then have "ndigits c' \<le> prec" unfolding prec_def by (intro ndigits_le) simp_all
  moreover have "Etiny \<le> x'" using lo x' by simp
  moreover have "x' \<le> Etop" using hi x' by simp
  ultimately have fx: "dec_fix s c' x' = Inr (Finite s c' x')" by (rule dec_fix_exact)
  have "div_100 (Finite s c e) = Inr (Finite s c' x')"
    using False
    by (simp add: div_100_def Let_def shift n2 quot rem sz' fx del: power_Suc)
  moreover have "dec_value s c' x' = dec_value s c e / 100"
  proof -
    have "dec_value s c (e - 2) = dec_value s (c' * 10 ^ nat (x' - (e - 2))) (e - 2)"
      using cc by simp
    also have "\<dots> = dec_value s c' ((e - 2) + int (nat (x' - (e - 2))))"
      by (rule dec_value_scale)
    also have "(e - 2) + int (nat (x' - (e - 2))) = x'" using x' by simp
    finally have "dec_value s c' x' = dec_value s c (e - 2)" by simp
    also have "\<dots> = dec_value s c e / 100"
      by (simp add: dec_value_def power_int_diff)
    finally show ?thesis .
  qed
  ultimately show ?thesis by blast
qed

lemma dec_mul_exact:
  assumes "c * d < 10 ^ 28" "Etiny \<le> e + f" "e + f \<le> Etop"
  shows "dec_mul (Finite s c e) (Finite t d f) = Inr (Finite (s \<noteq> t) (c * d) (e + f))"
proof -
  have "ndigits (c * d) \<le> prec" unfolding prec_def using assms(1) by (intro ndigits_le) simp_all
  from dec_fix_exact [OF this assms(2,3)] show ?thesis by simp
qed

text \<open>
  C5, as stated, at concrete inputs. A percent string of 29 significant digits is not
  divided by 100 exactly: the quotient is rounded to the 28 digits of the context. And the
  product of two Decimals of 16 digits, a cell concentration 1.000000000000001 and a
  percent 1.000000000000001 (the string \<^verbatim>\<open>100.0000000000001\<close>), is rounded to 28 digits:
  the count is not the exact product.
\<close>

theorem decimal_arithmetic_exact_counterexample:
  "Decimal ''1.0000000000000000000000000001''
     = Some (Finite False 10000000000000000000000000001 (- 28)) \<and>
   convert_to_decimal [''1.0000000000000000000000000001''] []
     = Inr [Finite False 1000000000000000000000000000 (- 29)] \<and>
   dec_value False 1000000000000000000000000000 (- 29)
     \<noteq> dec_value False 10000000000000000000000000001 (- 28) / 100 \<and>
   convert_to_decimal [''100.0000000000001''] [] = Inr [Finite False 1000000000000001 (- 15)] \<and>
   dec_mul (Finite False 1000000000000001 (- 15)) (Finite False 1000000000000001 (- 15))
     = Inr (Finite False 1000000000000002000000000000 (- 27)) \<and>
   dec_value False 1000000000000002000000000000 (- 27)
     \<noteq> dec_value False 1000000000000001 (- 15) * dec_value False 1000000000000001 (- 15)"
proof (intro conjI)
  show "Decimal ''1.0000000000000000000000000001''
     = Some (Finite False 10000000000000000000000000001 (- 28))"
    by (simp add: dec_eval)
  show "convert_to_decimal [''1.0000000000000000000000000001''] []
     = Inr [Finite False 1000000000000000000000000000 (- 29)]"
    by (simp add: dec_eval)
  show "dec_value False 1000000000000000000000000000 (- 29)
     \<noteq> dec_value False 10000000000000000000000000001 (- 28) / 100"
    by (simp add: dec_value_def power_int_minus field_simps)
  show "convert_to_decimal [''100.0000000000001''] [] = Inr [Finite False 1000000000000001 (- 15)]"
    by (simp add: dec_eval)
  show "dec_mul (Finite False 1000000000000001 (- 15)) (Finite False 1000000000000001 (- 15))
     = Inr (Finite False 1000000000000002000000000000 (- 27))"
    by (simp add: dec_eval)
  show "dec_value False 1000000000000002000000000000 (- 27)
     \<noteq> dec_value False 1000000000000001 (- 15) * dec_value False 1000000000000001 (- 15)"
    by (simp add: dec_value_def power_int_minus field_simps)
qed

text \<open>
  C5, amended. Percents and counts are Decimals, decimal floating-point numbers of the
  default context, never binary ones. A percent string that parses to a finite Decimal of
  at most 28 digits (and an exponent within the context's range) is stored as exactly that
  number divided by 100, and a product whose exact coefficient has at most 28 digits is
  exact; longer results are rounded to 28 digits. The string \<^verbatim>\<open>50\<close> is stored as 0.5, which
  times 100 is 50.0; and with the concentration 10 the start percent \<^verbatim>\<open>80\<close> gives the count
  8.0 and its child with the percent \<^verbatim>\<open>50\<close> the count 4.00, both exact.
\<close>

theorem decimal_arithmetic_exact:
  "(Decimal percent = Some (Finite s c e) \<and> c < 10 ^ 28 \<and> Etiny + 2 \<le> e \<and> e \<le> Etop \<longrightarrow>
      (\<exists>c' e'. convert_to_decimal [percent] [] = Inr [Finite s c' e'] \<and>
               dec_value s c' e' = dec_value s c e / 100))
   \<and> (a * b < 10 ^ 28 \<and> Etiny \<le> x + y \<and> x + y \<le> Etop \<longrightarrow>
        dec_mul (Finite t a x) (Finite u b y) = Inr (Finite (t \<noteq> u) (a * b) (x + y)) \<and>
        dec_value (t \<noteq> u) (a * b) (x + y) = dec_value t a x * dec_value u b y)
   \<and> convert_to_decimal [''50''] [] = Inr [Finite False 5 (- 1)]
   \<and> dec_value False 5 (- 1) = 50 / 100
   \<and> dec_mul (Finite False 5 (- 1)) (Finite False 100 0) = Inr (Finite False 500 (- 1))
   \<and> dec_value False 500 (- 1) = 50
   \<and> TubeData_init ''T'' [''80'', ''50''] [''10'']
        = Inr (\<lparr>tube_name = ''T'', raw_percent = [''80'', ''50''], group_id = '''',
                 cell_conc = Finite False 10 0,
                 percent_list = [Finite False 8 (- 1), Finite False 5 (- 1)],
                 count_list = []\<rparr>, [])
   \<and> calculate_cell_counts
        \<lparr>tube_name = ''T'', raw_percent = [''80'', ''50''], group_id = '''',
          cell_conc = Finite False 10 0,
          percent_list = [Finite False 8 (- 1), Finite False 5 (- 1)],
          count_list = []\<rparr> [Start, Parent 0]
        = Inr \<lparr>tube_name = ''T'', raw_percent = [''80'', ''50''], group_id = '''',
                cell_conc = Finite False 10 0,
                percent_list = [Finite False 8 (- 1), Finite False 5 (- 1)],
                count_list = [Num (Finite False 80 (- 1)), Num (Finite False 400 (- 2))]\<rparr>
   \<and> dec_value False 80 (- 1) = 8
   \<and> dec_value False 400 (- 2) = 4"
proof (intro conjI impI)
  assume h: "Decimal percent = Some (Finite s c e) \<and> c < 10 ^ 28 \<and> Etiny + 2 \<le> e \<and> e \<le> Etop"
  then have "\<exists>c' e'. div_100 (Finite s c e) = Inr (Finite s c' e') \<and>
           dec_value s c' e' = dec_value s c e / 100"
    by (intro div_100_exact) simp_all
  then obtain c' e' where "div_100 (Finite s c e) = Inr (Finite s c' e')"
    and "dec_value s c' e' = dec_value s c e / 100"
    by blast
  with h show "\<exists>c' e'. convert_to_decimal [percent] [] = Inr [Finite s c' e'] \<and>
               dec_value s c' e' = dec_value s c e / 100"
    by simp
next
  assume h: "a * b < 10 ^ 28 \<and> Etiny \<le> x + y \<and> x + y \<le> Etop"
  then show "dec_mul (Finite t a x) (Finite u b y) = Inr (Finite (t \<noteq> u) (a * b) (x + y))"
    by (intro dec_mul_exact) simp_all
  show "dec_value (t \<noteq> u) (a * b) (x + y) = dec_value t a x * dec_value u b y"
    by (rule dec_value_mult)
next
  show "convert_to_decimal [''50''] [] = Inr [Finite False 5 (- 1)]"
    by (simp add: dec_eval)
  show "dec_value False 5 (- 1) = 50 / 100"
    by (simp add: dec_value_def power_int_minus)
  show "dec_mul (Finite False 5 (- 1)) (Finite False 100 0) = Inr (Finite False 500 (- 1))"
    by (simp add: dec_eval)
  show "dec_value False 500 (- 1) = 50"
    by (simp add: dec_value_def power_int_minus)
  show "TubeData_init ''T'' [''80'', ''50''] [''10'']
        = Inr (\<lparr>tube_name = ''T'', raw_percent = [''80'', ''50''], group_id = '''',
                 cell_conc = Finite False 10 0,
                 percent_list = [Finite False 8 (- 1), Finite False 5 (- 1)],
                 count_list = []\<rparr>, [])"
    by (simp add: TubeData_init_def dec_eval)
  show "calculate_cell_counts
        \<lparr>tube_name = ''T'', raw_percent = [''80'', ''50''], group_id = '''',
          cell_conc = Finite False 10 0,
          percent_list = [Finite False 8 (- 1), Finite False 5 (- 1)],
          count_list = []\<rparr> [Start, Parent 0]
        = Inr \<lparr>tube_name = ''T'', raw_percent = [''80'', ''50''], group_id = '''',
                cell_conc = Finite False 10 0,
                percent_list = [Finite False 8 (- 1), Finite False 5 (- 1)],
                count_list = [Num (Finite False 80 (- 1)), Num (Finite False 400 (- 2))]\<rparr>"
    by (simp add: calculate_cell_counts_def cell_count_def getitem_def cell_mul_def dec_eval)
  show "dec_value False 80 (- 1) = 8"
    by (simp add: dec_value_def power_int_minus)
  show "dec_value False 400 (- 2) = 4"
    by (simp add: dec_value_def power_int_minus)
qed

theorem decimal_arithmetic_exact_witness:
  "(\<exists>c' e'. convert_to_decimal [''12.5''] [] = Inr [Finite False c' e'] \<and>
             dec_value False c' e' = dec_value False 125 (- 1) / 100)
   \<and> dec_mul (Finite False 125 (- 3)) (Finite True 40 0) = Inr (Finite True 5000 (- 3))
   \<and> dec_value True 5000 (- 3) = dec_value False 125 (- 3) * dec_value True 40 0"
proof -
  have p: "Decimal ''12.5'' = Some (Finite False 125 (- 1)) \<and> (125::nat) < 10 ^ 28 \<and>
      Etiny + 2 \<le> - 1 \<and> (- 1::int) \<le> Etop"
    by (simp add: dec_eval)
  have m: "(125::nat) * 40 < 10 ^ 28 \<and> Etiny \<le> - 3 + 0 \<and> (- 3::int) + 0 \<le> Etop"
    by (simp add: Etiny_def Etop_def Emin_def Emax_def prec_def)
  from decimal_arithmetic_exact
    [of "''12.5''" False 125 "- 1" 125 40 "- 3" 0 False True] p m
  show ?thesis by simp
qed

end
